theory Spec2Isabelle
  imports Complex_Main "HOL-Library.Word" "HOL-Library.Signed_Division"
begin

section \<open>The list command of kube-stress (cmd/list.go)\<close>

text \<open>
  The program is concurrent: the main goroutine runs \<open>listCommand\<close> and, inside it,
  \<open>listObjects\<close>; one goroutine listens for signals; every tick starts a goroutine that
  runs \<open>listOnce\<close>. The embedding is an interleaving semantics. Each goroutine is a
  program counter over the statements of its source function, a step executes one
  statement, and a schedule (a list of events) says which goroutine moves next and what
  the environment does: how much time passes, when the ticker fires, when a signal is
  delivered, what a request answers, and which ready case a \<open>select\<close> takes. An event that
  is not enabled (a blocked receive, a tick that would come too early) leaves the state
  as it is, so every list of events is a run and every prefix of a run is a run; the
  process exiting is the schedule ending.
\<close>

subsection \<open>Data\<close>

type_synonym client = nat     \<comment> \<open>a \<open>*kubernetes.Clientset\<close> handle\<close>
type_synonym time = nat       \<comment> \<open>a reading of the monotonic clock, in nanoseconds\<close>
type_synonym error = string

text \<open>
  A response body (an \<open>io.ReadCloser\<close>): what reading it to its end gives, nil or the error
  of the read that failed (a transport error, the timeout or the cancellation of the
  request's context while the body arrives).
\<close>

datatype stream = Body (read_error: "error option")

text \<open>
  A \<open>float32\<close>: \<open>F32 s m e\<close> is the number \<open>m * 2 ^ e\<close>, negated when \<open>s\<close> holds (with
  \<open>m = 0\<close> it is the zero of that sign); then the two infinities, negative when the flag
  holds, and NaN. The values of the type have \<open>m < 2 ^ 24\<close> and \<open>e\<close> from \<open>-149\<close> to \<open>104\<close>;
  the functions below take every \<open>m\<close> and \<open>e\<close>.
\<close>

datatype float32 = F32 bool nat int | F32_Inf bool | F32_NaN

text \<open>
  \<open>ListConfig\<close>, lines 39-47. \<open>time.Duration\<close> is an \<open>int64\<close> of nanoseconds, read with
  \<open>sint\<close>.
\<close>

record ListConfig =
  namespace :: string
  objectType :: string
  pageSize :: int
  numClients :: int
  qps :: float32
  totalDuration :: "64 word"
  csvOutputFilepath :: string

definition duration :: "ListConfig \<Rightarrow> int" where
  "duration cfg = sint (totalDuration cfg)"

text \<open>\<open>csvWriter\<close> is set by the command's \<open>Run\<close> exactly when the path is not empty (lines 61-64).\<close>

definition csvWriter_set :: "ListConfig \<Rightarrow> bool" where
  "csvWriter_set cfg = (csvOutputFilepath cfg \<noteq> [])"

definition maxInt64 :: int where
  "maxInt64 = 2 ^ 63 - 1"

text \<open>\<open>time.Since(start)\<close> at clock reading \<open>t\<close>: the difference, saturated at the largest \<open>Duration\<close>.\<close>

definition time_Since :: "time \<Rightarrow> time \<Rightarrow> int" where
  "time_Since start t = min (int t - int start) maxInt64"

text \<open>\<open>i++\<close> on a Go \<open>int\<close> (64 bits, two's complement).\<close>

definition wrap64 :: "int \<Rightarrow> int" where
  "wrap64 x = (x + 2 ^ 63) mod 2 ^ 64 - 2 ^ 63"

subsection \<open>The tick interval\<close>

text \<open>
  Line 116 gives the ticker \<open>time.Duration(1000000000.0/listConfig.qps) * time.Nanosecond\<close>.
  The constant takes the type of \<open>qps\<close>, so the quotient is a \<open>float32\<close> division: the exact
  quotient rounded to the nearest \<open>float32\<close>, ties to even. (\<open>1000000000\<close> is a \<open>float32\<close>,
  \<open>1953125 * 2 ^ 9\<close>.)

  \<open>bits n\<close> is the length of \<open>n\<close> in binary, and \<open>quotient_exponent n d\<close> the exponent of the
  leading bit of \<open>n / d\<close>. \<open>f32_quotient s n d\<close> rounds \<open>n / d\<close> to 24 significant bits, or to
  a multiple of \<open>2 ^ -149\<close> below the normal range, and gives infinity from \<open>2 ^ 128\<close> on.
\<close>

fun bits :: "nat \<Rightarrow> nat" where
  "bits n = (if n = 0 then 0 else Suc (bits (n div 2)))"

definition round_half_even :: "nat \<Rightarrow> nat \<Rightarrow> nat" where
  "round_half_even n d =
     (let k = n div d; r = n mod d
      in if 2 * r < d then k else if d < 2 * r then k + 1 else if even k then k else k + 1)"

definition quotient_exponent :: "nat \<Rightarrow> nat \<Rightarrow> int" where
  "quotient_exponent n d =
     (let k = int (bits n) - int (bits d)
      in if (if 0 \<le> k then d * 2 ^ nat k \<le> n else d \<le> n * 2 ^ nat (- k)) then k else k - 1)"

definition f32_quotient :: "bool \<Rightarrow> nat \<Rightarrow> nat \<Rightarrow> float32" where
  "f32_quotient s n d =
     (let e = max (quotient_exponent n d - 23) (- 149);
          m = round_half_even (n * 2 ^ nat (- e)) (d * 2 ^ nat e)
      in if 0 \<le> e \<and> (2::nat) ^ 128 \<le> m * 2 ^ nat e then F32_Inf s else F32 s m e)"

text \<open>
  \<open>1000000000.0 / q\<close>: a zero divisor gives the infinity of its sign, an infinite divisor
  the zero of its sign.
\<close>

definition f32_div_1e9 :: "float32 \<Rightarrow> float32" where
  "f32_div_1e9 q =
     (case q of
        F32 s m e \<Rightarrow>
          if m = 0 then F32_Inf s
          else f32_quotient s (1000000000 * 2 ^ nat (- e)) (m * 2 ^ nat e)
      | F32_Inf s \<Rightarrow> F32 s 0 0
      | F32_NaN \<Rightarrow> F32_NaN)"

text \<open>
  The conversion \<open>time.Duration(x)\<close> drops the fraction. For a value that no \<open>int64\<close> holds
  (an infinity, NaN, a magnitude of \<open>2 ^ 63\<close> or more) Go leaves the result to the
  implementation; this is the result on amd64, whose conversion instruction then
  gives the least \<open>int64\<close>. The product with \<open>time.Nanosecond\<close>, which is 1, changes nothing.
\<close>

definition int64_indefinite :: "64 word" where
  "int64_indefinite = word_of_int (- (2 ^ 63))"

definition duration_of_float32 :: "float32 \<Rightarrow> 64 word" where
  "duration_of_float32 x =
     (case x of
        F32 s m e \<Rightarrow>
          (let t = (if 0 \<le> e then int m * 2 ^ nat e else int m div 2 ^ nat (- e));
               v = (if s then - t else t)
           in if - (2 ^ 63) \<le> v \<and> v < 2 ^ 63 then word_of_int v else int64_indefinite)
      | F32_Inf s \<Rightarrow> int64_indefinite
      | F32_NaN \<Rightarrow> int64_indefinite)"

definition rate_interval :: "float32 \<Rightarrow> 64 word" where
  "rate_interval q = duration_of_float32 (f32_div_1e9 q)"

definition interval :: "ListConfig \<Rightarrow> int" where
  "interval cfg = sint (rate_interval (qps cfg))"

subsection \<open>The floating-point expression of the summary\<close>

text \<open>
  The summary prints \<open>float64(fc)/float64(tc)*100\<close> (line 124). Only the special values of
  IEEE 754 arithmetic are modelled: finite results are kept as exact reals (no rounding,
  no signed zero), and no statement below depends on the value of a finite result.
\<close>

datatype float64 = Fin real | PInf | NInf | NaN

definition float64_of_uint64 :: "64 word \<Rightarrow> float64" where
  "float64_of_uint64 w = Fin (real (unat w))"

fun fdiv :: "float64 \<Rightarrow> float64 \<Rightarrow> float64" where
  "fdiv NaN _ = NaN"
| "fdiv _ NaN = NaN"
| "fdiv (Fin a) (Fin b) =
     (if b \<noteq> 0 then Fin (a / b)
      else if a = 0 then NaN
      else if 0 < a then PInf else NInf)"
| "fdiv (Fin a) _ = Fin 0"
| "fdiv PInf (Fin b) = (if b < 0 then NInf else PInf)"
| "fdiv NInf (Fin b) = (if b < 0 then PInf else NInf)"
| "fdiv _ _ = NaN"

fun fmul :: "float64 \<Rightarrow> float64 \<Rightarrow> float64" where
  "fmul NaN _ = NaN"
| "fmul _ NaN = NaN"
| "fmul (Fin a) (Fin b) = Fin (a * b)"
| "fmul (Fin a) PInf = (if a = 0 then NaN else if 0 < a then PInf else NInf)"
| "fmul (Fin a) NInf = (if a = 0 then NaN else if 0 < a then NInf else PInf)"
| "fmul PInf (Fin b) = (if b = 0 then NaN else if 0 < b then PInf else NInf)"
| "fmul NInf (Fin b) = (if b = 0 then NaN else if 0 < b then NInf else PInf)"
| "fmul PInf PInf = PInf"
| "fmul NInf NInf = PInf"
| "fmul _ _ = NInf"

definition failure_rate :: "64 word \<Rightarrow> 64 word \<Rightarrow> float64" where
  "failure_rate fc tc = fmul (fdiv (float64_of_uint64 fc) (float64_of_uint64 tc)) (Fin 100)"

text \<open>What line 124 logs: the two counts and the rate.\<close>

record summary =
  s_failed :: "64 word"
  s_total :: "64 word"
  s_rate :: float64

subsection \<open>The request worker: \<open>listOnce\<close> and the goroutine around it\<close>

text \<open>What \<open>Stream\<close> hands back (line 155): a response body or nil, and an error or nil.\<close>

record response =
  rc :: "stream option"
  err :: "error option"

text \<open>
  The program counter of a worker goroutine (lines 136-141 around lines 149-180), named by
  the statement it executes next.
\<close>

datatype wpc =
    W_AddTotal      \<comment> \<open>line 152: \<open>totalCount.Add(1)\<close>\<close>
  | W_Now           \<comment> \<open>line 154: \<open>start := time.Now()\<close>\<close>
  | W_Stream        \<comment> \<open>lines 155-159: the request\<close>
  | W_Drain         \<comment> \<open>lines 160-163: the test \<open>rc != nil\<close>, then \<open>io.Copy(ioutil.Discard, rc)\<close>\<close>
  | W_Close         \<comment> \<open>line 164: \<open>rc.Close()\<close>\<close>
  | W_CheckErr      \<comment> \<open>lines 168-173: the error test, then \<open>failedCount.Add(1)\<close> or the latency\<close>
  | W_Csv           \<comment> \<open>lines 174-179: the CSV row, \<open>return nil\<close>\<close>
  | W_WgDone        \<comment> \<open>line 137: the deferred \<open>wg.Done()\<close>\<close>
  | W_Exited

text \<open>
  What a worker has done so far, in order. \<open>A_Now\<close> carries the clock reading of line 154,
  \<open>A_Drain\<close> the error that \<open>io.Copy\<close> returned, \<open>A_Since\<close> the clock reading of line 173 and
  the latency computed from it.
\<close>

datatype action =
    A_TotalAdd
  | A_Now time
  | A_Stream
  | A_Drain "error option"
  | A_Close
  | A_FailedAdd
  | A_Since time int
  | A_CsvWrite int
  | A_Return "error option"
  | A_WgDone

record worker =
  wpc :: wpc
  wtick :: int
  wclient :: client
  wstart :: time
  wresp :: response
  wlatency :: int
  wlog :: "action list"

text \<open>The effect of one worker statement on what the goroutines share.\<close>

datatype effect = E_None | E_TotalAdd | E_FailedAdd | E_CsvWrite int | E_WgDone

definition did :: "worker \<Rightarrow> wpc \<Rightarrow> action list \<Rightarrow> worker" where
  "did w pc as = w\<lparr>wpc := pc, wlog := wlog w @ as\<rparr>"

text \<open>
  One statement of the worker. \<open>csv\<close> says whether \<open>csvWriter\<close> is set, \<open>t\<close> is the clock,
  \<open>r\<close> is what the request answers (read only by the statement that issues it).
  \<open>io.Copy\<close> reads the body to its end or to the first read that fails; line 163 drops
  what it returns, the error too. The result of \<open>rc.Close()\<close> is only logged (line 165).
\<close>

fun listOnce_step :: "bool \<Rightarrow> time \<Rightarrow> response \<Rightarrow> worker \<Rightarrow> worker \<times> effect" where
  "listOnce_step csv t r w =
    (case wpc w of
       W_AddTotal \<Rightarrow> (did w W_Now [A_TotalAdd], E_TotalAdd)
     | W_Now \<Rightarrow> (did (w\<lparr>wstart := t\<rparr>) W_Stream [A_Now t], E_None)
     | W_Stream \<Rightarrow>
         (did (w\<lparr>wresp := r\<rparr>) W_Drain [A_Stream], E_None)
     | W_Drain \<Rightarrow>
         (case rc (wresp w) of
            None \<Rightarrow> (did w W_CheckErr [], E_None)
          | Some body \<Rightarrow> (did w W_Close [A_Drain (read_error body)], E_None))
     | W_Close \<Rightarrow> (did w W_CheckErr [A_Close], E_None)
     | W_CheckErr \<Rightarrow>
         (if err (wresp w) \<noteq> None
          then (did w W_WgDone [A_FailedAdd, A_Return (err (wresp w))], E_FailedAdd)
          else let latency = time_Since (wstart w) t
               in (did (w\<lparr>wlatency := latency\<rparr>) W_Csv [A_Since t latency], E_None))
     | W_Csv \<Rightarrow>
         (if csv
          then (did w W_WgDone [A_CsvWrite (wlatency w), A_Return None], E_CsvWrite (wlatency w))
          else (did w W_WgDone [A_Return None], E_None))
     | W_WgDone \<Rightarrow> (did w W_Exited [A_WgDone], E_WgDone)
     | W_Exited \<Rightarrow> (w, E_None))"

text \<open>
  The goroutine that line 136 starts, with the client handle that line 134 chose;
  \<open>wtick\<close> is the value of the loop counter \<open>i\<close> at that launch.
\<close>

definition new_worker :: "int \<Rightarrow> client \<Rightarrow> worker" where
  "new_worker k c =
     \<lparr>wpc = W_AddTotal, wtick = k, wclient = c, wstart = 0,
      wresp = \<lparr>rc = None, err = None\<rparr>, wlatency = 0, wlog = []\<rparr>"

subsection \<open>The state of the process\<close>

text \<open>How the dispatcher left its loop: the condition of line 128, line 132, or a panic.\<close>

datatype exit = ByDuration | ByCancel | ByPanic

text \<open>The program counter of the main goroutine, through \<open>listCommand\<close> and \<open>listObjects\<close>.\<close>

datatype mpc =
    M_Setup              \<comment> \<open>lines 82-109\<close>
  | M_NewTicker          \<comment> \<open>lines 115-127\<close>
  | M_Cond               \<comment> \<open>line 128: the loop condition\<close>
  | M_Select             \<comment> \<open>lines 129-142: the select\<close>
  | M_Wait               \<comment> \<open>line 145: \<open>wg.Wait()\<close>\<close>
  | M_LoadFailed exit    \<comment> \<open>line 122, deferred\<close>
  | M_LoadTotal exit "64 word"  \<comment> \<open>lines 123-124, deferred; then \<open>ticker.Stop()\<close>\<close>
  | M_OnceDo exit        \<comment> \<open>line 89, deferred: \<open>once.Do(cancel)\<close>\<close>
  | M_Returned "error option"   \<comment> \<open>\<open>listCommand\<close> has returned this value\<close>
  | M_Crashed            \<comment> \<open>the panic left \<open>listCommand\<close>\<close>

datatype hpc = H_NotStarted | H_Running | H_Exited

record state =
  now :: time                  \<comment> \<open>the monotonic clock\<close>
  start :: time                \<comment> \<open>line 115\<close>
  ticker_on :: bool            \<comment> \<open>the ticker of line 116 exists and is not stopped\<close>
  fired :: nat                 \<comment> \<open>ticks the ticker has produced\<close>
  tick_pending :: bool         \<comment> \<open>\<open>ticker.C\<close>, a channel of capacity 1\<close>
  notify_on :: bool            \<comment> \<open>line 86\<close>
  sig_pending :: bool          \<comment> \<open>\<open>sigs\<close>, a channel of capacity 1 (line 85)\<close>
  handler :: hpc               \<comment> \<open>the goroutine of lines 90-101\<close>
  ctx_done :: bool             \<comment> \<open>\<open>ctx.Done()\<close> is closed\<close>
  once_done :: bool            \<comment> \<open>\<open>once\<close>, line 88\<close>
  cancel_calls :: nat          \<comment> \<open>how often \<open>cancel\<close> has run\<close>
  mpc :: mpc
  i :: int                     \<comment> \<open>the loop counter of line 128\<close>
  workers :: "worker list"     \<comment> \<open>the goroutines of line 136, in launch order\<close>
  wg :: nat                    \<comment> \<open>the counter of the WaitGroup (line 127)\<close>
  totalCount :: "64 word"
  failedCount :: "64 word"
  csv :: "int list"            \<comment> \<open>the rows written to \<open>csvWriter\<close>\<close>
  summary :: "summary option"  \<comment> \<open>the summary, once logged\<close>

definition init :: state where
  "init =
     \<lparr>now = 0, start = 0, ticker_on = False, fired = 0, tick_pending = False,
      notify_on = False, sig_pending = False, handler = H_NotStarted, ctx_done = False,
      once_done = False, cancel_calls = 0, mpc = M_Setup, i = 0, workers = [], wg = 0,
      totalCount = 0, failedCount = 0, csv = [], summary = None\<rparr>"

subsection \<open>Cancellation\<close>

text \<open>\<open>once.Do(cancel)\<close> (lines 89 and 95): \<open>sync.Once\<close> runs the function on the first call only.\<close>

definition once_Do_cancel :: "state \<Rightarrow> state" where
  "once_Do_cancel s =
     (if once_done s then s
      else s\<lparr>once_done := True, cancel_calls := cancel_calls s + 1, ctx_done := True\<rparr>)"

text \<open>
  One turn of the signal goroutine's loop (lines 91-100). When both cases of the select
  are ready Go takes either; \<open>pick_done\<close> is that choice. With no case ready it blocks.
\<close>

definition handler_step :: "bool \<Rightarrow> state \<Rightarrow> state" where
  "handler_step pick_done s =
     (if handler s \<noteq> H_Running then s
      else if ctx_done s \<and> (\<not> sig_pending s \<or> pick_done) then s\<lparr>handler := H_Exited\<rparr>
      else if sig_pending s then once_Do_cancel (s\<lparr>sig_pending := False\<rparr>)
      else s)"

subsection \<open>The dispatcher: \<open>listCommand\<close> and \<open>listObjects\<close>\<close>

text \<open>
  Lines 134-141, on a received tick: the client is \<open>clients[i%len(clients)]\<close>, where \<open>%\<close> is
  Go's truncated remainder (\<open>smod\<close>) and panics on a zero divisor, and the index panics
  out of range. A panic runs the deferred summary of lines 121-125.
\<close>

definition launch :: "client list \<Rightarrow> state \<Rightarrow> state" where
  "launch clients s =
     (let n = int (length clients) in
      if n = 0 then s\<lparr>tick_pending := False, mpc := M_LoadFailed ByPanic\<rparr>
      else let idx = i s smod n in
        if idx < 0 \<or> n \<le> idx then s\<lparr>tick_pending := False, mpc := M_LoadFailed ByPanic\<rparr>
        else s\<lparr>tick_pending := False,
               workers := workers s @ [new_worker (i s) (clients ! nat idx)],
               wg := wg s + 1,
               i := wrap64 (i s + 1),
               mpc := M_Cond\<rparr>)"

text \<open>
  One statement of \<open>listObjects\<close> (lines 114-147). \<open>time.NewTicker\<close> panics on an
  interval that is not positive; that panic passes no deferred call of \<open>listObjects\<close>
  (none is registered yet) and goes on to the deferred call of \<open>listCommand\<close>. When both
  cases of the select are ready Go takes either; \<open>pick_done\<close> is that choice. The \<open>return\<close>
  of line 132, the end of the function after line 146, and a panic at line 134 all run
  the deferred function of lines 121-125 (two atomic loads, then the log line) and then
  the deferred \<open>ticker.Stop()\<close>.
\<close>

definition listObjects_step :: "ListConfig \<Rightarrow> client list \<Rightarrow> bool \<Rightarrow> state \<Rightarrow> state" where
  "listObjects_step cfg clients pick_done s =
    (case mpc s of
       M_NewTicker \<Rightarrow>
         (if interval cfg \<le> 0 then s\<lparr>mpc := M_OnceDo ByPanic\<rparr>
          else s\<lparr>start := now s, ticker_on := True, mpc := M_Cond\<rparr>)
     | M_Cond \<Rightarrow>
         (if time_Since (start s) (now s) < duration cfg then s\<lparr>mpc := M_Select\<rparr>
          else s\<lparr>mpc := M_Wait\<rparr>)
     | M_Select \<Rightarrow>
         (if ctx_done s \<and> (\<not> tick_pending s \<or> pick_done) then s\<lparr>mpc := M_LoadFailed ByCancel\<rparr>
          else if tick_pending s then launch clients s
          else s)
     | M_Wait \<Rightarrow> (if wg s = 0 then s\<lparr>mpc := M_LoadFailed ByDuration\<rparr> else s)
     | M_LoadFailed e \<Rightarrow> s\<lparr>mpc := M_LoadTotal e (failedCount s)\<rparr>
     | M_LoadTotal e fc \<Rightarrow>
         s\<lparr>summary := Some \<lparr>s_failed = fc, s_total = totalCount s,
                              s_rate = failure_rate fc (totalCount s)\<rparr>,
           ticker_on := False,
           mpc := M_OnceDo e\<rparr>
     | _ \<Rightarrow> s)"

text \<open>
  One statement of the main goroutine, which runs \<open>listCommand\<close> (lines 81-112): the
  setup of lines 82-109, the call of \<open>listObjects\<close> (line 110), and \<open>return nil\<close> (line 111)
  with the deferred \<open>once.Do(cancel)\<close> of line 89, which a panic out of \<open>listObjects\<close> runs
  as well.
\<close>

definition listCommand_step :: "ListConfig \<Rightarrow> client list \<Rightarrow> bool \<Rightarrow> state \<Rightarrow> state" where
  "listCommand_step cfg clients pick_done s =
    (case mpc s of
       M_Setup \<Rightarrow> s\<lparr>notify_on := True, handler := H_Running, mpc := M_NewTicker\<rparr>
     | M_OnceDo e \<Rightarrow>
         (once_Do_cancel s)\<lparr>mpc := (if e = ByPanic then M_Crashed else M_Returned None)\<rparr>
     | M_Returned v \<Rightarrow> s
     | M_Crashed \<Rightarrow> s
     | _ \<Rightarrow> listObjects_step cfg clients pick_done s)"

text \<open>
  The \<open>Run\<close> function of the command, lines 65-68, after \<open>listCommand\<close>: the exit status of
  its error branch, if the branch is taken.
\<close>

definition Run_exit :: "state \<Rightarrow> nat option" where
  "Run_exit s = (case mpc s of M_Returned (Some e) \<Rightarrow> Some 1 | _ \<Rightarrow> None)"

subsection \<open>Schedules\<close>

datatype event =
    Advance nat               \<comment> \<open>time passes\<close>
  | TickerFire                \<comment> \<open>the ticker sends on \<open>ticker.C\<close>\<close>
  | SignalArrive              \<comment> \<open>SIGTERM or SIGINT is delivered\<close>
  | HandlerStep bool
  | MainStep bool
  | WorkerStep nat response   \<comment> \<open>the worker of that launch index moves\<close>

text \<open>
  The effects on the shared state. (\<open>wg.Done()\<close> panics on a counter of zero; the
  counter is positive whenever a worker gets there, by the invariant \<open>inv_B\<close> below.)
\<close>

definition apply_effect :: "effect \<Rightarrow> state \<Rightarrow> state" where
  "apply_effect e s =
     (case e of
        E_None \<Rightarrow> s
      | E_TotalAdd \<Rightarrow> s\<lparr>totalCount := totalCount s + 1\<rparr>
      | E_FailedAdd \<Rightarrow> s\<lparr>failedCount := failedCount s + 1\<rparr>
      | E_CsvWrite l \<Rightarrow> s\<lparr>csv := csv s @ [l]\<rparr>
      | E_WgDone \<Rightarrow> s\<lparr>wg := wg s - 1\<rparr>)"

definition worker_step :: "ListConfig \<Rightarrow> nat \<Rightarrow> response \<Rightarrow> state \<Rightarrow> state" where
  "worker_step cfg k r s =
     (if k < length (workers s)
      then let (w', e) = listOnce_step (csvWriter_set cfg) (now s) r (workers s ! k)
           in apply_effect e (s\<lparr>workers := (workers s)[k := w']\<rparr>)
      else s)"

text \<open>
  The ticker sends its \<open>n\<close>-th tick no earlier than \<open>n\<close> intervals after its creation, and
  drops a tick when the channel is full. \<open>signal.Notify\<close> sends without blocking, so a
  signal is dropped when \<open>sigs\<close> is full.
\<close>

definition ticker_fire :: "ListConfig \<Rightarrow> state \<Rightarrow> state" where
  "ticker_fire cfg s =
     (if ticker_on s \<and> int (fired s + 1) * interval cfg \<le> int (now s) - int (start s)
      then s\<lparr>fired := fired s + 1, tick_pending := True\<rparr>
      else s)"

definition signal_arrive :: "state \<Rightarrow> state" where
  "signal_arrive s = (if notify_on s then s\<lparr>sig_pending := True\<rparr> else s)"

fun step :: "ListConfig \<Rightarrow> client list \<Rightarrow> state \<Rightarrow> event \<Rightarrow> state" where
  "step cfg clients s (Advance d) = s\<lparr>now := now s + d\<rparr>"
| "step cfg clients s TickerFire = ticker_fire cfg s"
| "step cfg clients s SignalArrive = signal_arrive s"
| "step cfg clients s (HandlerStep b) = handler_step b s"
| "step cfg clients s (MainStep b) = listCommand_step cfg clients b s"
| "step cfg clients s (WorkerStep k r) = worker_step cfg k r s"

definition run :: "ListConfig \<Rightarrow> client list \<Rightarrow> event list \<Rightarrow> state" where
  "run cfg clients sched = foldl (step cfg clients) init sched"

section \<open>Example configurations and schedules\<close>

text \<open>
  One client, \<open>qps = 1\<close> (one tick a second), one minute. Each schedule names the moves of one run;
  the first two moves of the main goroutine are lines 82-109 and lines 115-127.
\<close>

definition example_config :: ListConfig where
  "example_config =
     \<lparr>namespace = ''kube-stress'', objectType = ''configmaps'', pageSize = 0, numClients = 1,
      qps = F32 False 1 0, totalDuration = 60000000000, csvOutputFilepath = []\<rparr>"

definition ok_response :: response where
  "ok_response = \<lparr>rc = Some (Body None), err = None\<rparr>"

text \<open>A response whose body breaks off while it is read.\<close>

definition truncated_response :: response where
  "truncated_response = \<lparr>rc = Some (Body (Some ''unexpected EOF'')), err = None\<rparr>"

definition error_response :: response where
  "error_response = \<lparr>rc = None, err = Some ''timeout''\<rparr>"

text \<open>Two ticks, one second apart, each launching a worker.\<close>

definition sched_two_ticks :: "event list" where
  "sched_two_ticks =
     [MainStep False, MainStep False,
      MainStep False, Advance 1000000000, TickerFire, MainStep False,
      MainStep False, Advance 1000000000, TickerFire, MainStep False]"

text \<open>A total duration of zero: the loop condition fails at once.\<close>

definition zero_duration_config :: ListConfig where
  "zero_duration_config = example_config\<lparr>totalDuration := 0\<rparr>"

definition sched_no_tick :: "event list" where
  "sched_no_tick = [MainStep False, MainStep False, MainStep False, MainStep False,
     MainStep False, MainStep False]"

text \<open>
  One tick; the worker's request gives an error and no body; then the minute is over
  and the dispatcher waits and logs the summary.
\<close>

definition sched_one_failure :: "event list" where
  "sched_one_failure =
     [MainStep False, MainStep False,
      MainStep False, Advance 1000000000, TickerFire, MainStep False,
      WorkerStep 0 error_response, WorkerStep 0 error_response, WorkerStep 0 error_response,
      WorkerStep 0 error_response, WorkerStep 0 error_response, WorkerStep 0 error_response,
      Advance 60000000000,
      MainStep False, MainStep False, MainStep False, MainStep False]"

text \<open>
  A total duration of 100 ms with one tick a second; the run in which the loop condition
  is read at once, the tick arrives a second later, the one worker succeeds and the
  dispatcher waits for it.
\<close>

definition short_config :: ListConfig where
  "short_config = example_config\<lparr>totalDuration := 100000000\<rparr>"

definition sched_short_run :: "event list" where
  "sched_short_run =
     [MainStep False, MainStep False,
      MainStep False, Advance 1000000000, TickerFire, MainStep False,
      MainStep False,
      WorkerStep 0 ok_response, WorkerStep 0 ok_response, WorkerStep 0 ok_response,
      WorkerStep 0 ok_response, WorkerStep 0 ok_response, WorkerStep 0 ok_response,
      WorkerStep 0 ok_response, WorkerStep 0 ok_response,
      MainStep False, MainStep False, MainStep False]"






text \<open>
  A signal while a request is about to be sent: the first tick launches worker 0, which
  counts itself in \<open>totalCount\<close> and reads the clock; then a signal arrives, the handler
  cancels the context, and the dispatcher's select takes \<open>ctx.Done()\<close> and returns.
\<close>

definition sched_cancel_in_flight :: "event list" where
  "sched_cancel_in_flight =
     [MainStep False, MainStep False,
      MainStep False, Advance 1000000000, TickerFire, MainStep False,
      WorkerStep 0 ok_response, WorkerStep 0 ok_response,
      SignalArrive, HandlerStep False,
      MainStep False, MainStep False,
      MainStep False, MainStep False]"

text \<open>
  With a CSV file configured: the worker of the first tick gets a response body, 250 ms
  pass while the request is served, and the worker drains, closes, records and returns.
\<close>

definition csv_config :: ListConfig where
  "csv_config = example_config\<lparr>csvOutputFilepath := ''latency.csv''\<rparr>"

definition sched_csv :: "event list" where
  "sched_csv =
     [MainStep False, MainStep False,
      MainStep False, Advance 1000000000, TickerFire, MainStep False,
      WorkerStep 0 ok_response, WorkerStep 0 ok_response, WorkerStep 0 ok_response,
      Advance 250000000,
      WorkerStep 0 ok_response, WorkerStep 0 ok_response, WorkerStep 0 ok_response,
      WorkerStep 0 ok_response, WorkerStep 0 ok_response]"

text \<open>
  The same run with a body that breaks off: \<open>Stream\<close> returns the body and no error, and
  250 ms later a read of the body fails inside \<open>io.Copy\<close>.
\<close>

definition sched_truncated :: "event list" where
  "sched_truncated =
     [MainStep False, MainStep False,
      MainStep False, Advance 1000000000, TickerFire, MainStep False,
      WorkerStep 0 truncated_response, WorkerStep 0 truncated_response,
      WorkerStep 0 truncated_response,
      Advance 250000000,
      WorkerStep 0 truncated_response, WorkerStep 0 truncated_response,
      WorkerStep 0 truncated_response, WorkerStep 0 truncated_response,
      WorkerStep 0 truncated_response]"

text \<open>
  Two signals in immediate succession (the second finds \<open>sigs\<close> full and is dropped), the
  handler's turn, and a third signal once the context is done.
\<close>

definition sched_signals :: "event list" where
  "sched_signals =
     [MainStep False, MainStep False, SignalArrive, SignalArrive, HandlerStep False,
      SignalArrive]"

section \<open>Predicates and invariants\<close>

text \<open>How many elements of a list satisfy a predicate.\<close>

definition cnt :: "('a \<Rightarrow> bool) \<Rightarrow> 'a list \<Rightarrow> nat" where
  "cnt P xs = length (filter P xs)"

text \<open>
  Time and launches. With an interval that is not positive the main goroutine never gets
  past \<open>time.NewTicker\<close>. Every launch has consumed a tick, the \<open>n\<close>-th tick is no earlier
  than \<open>n\<close> intervals after the start, and a launch follows a loop condition that held; so
  the launches but the last fit into the total duration, and the loop counter, which is
  the number of launches, stays below \<open>2 ^ 63\<close>.
\<close>

definition inv_A :: "ListConfig \<Rightarrow> state \<Rightarrow> bool" where
  "inv_A cfg s \<longleftrightarrow>
     start s \<le> now s \<and>
     (interval cfg \<le> 0 \<longrightarrow>
        \<not> ticker_on s \<and> summary s = None \<and>
        (mpc s = M_Setup \<or> mpc s = M_NewTicker \<or> mpc s = M_OnceDo ByPanic \<or> mpc s = M_Crashed)) \<and>
     (\<not> ticker_on s \<and> summary s = None \<longrightarrow> fired s = 0 \<and> \<not> tick_pending s \<and> workers s = []) \<and>
     (mpc s = M_Setup \<or> mpc s = M_NewTicker \<longrightarrow> \<not> ticker_on s \<and> summary s = None) \<and>
     length (workers s) + (if tick_pending s then 1 else 0) \<le> fired s \<and>
     int (fired s) * interval cfg \<le> int (now s) - int (start s) \<and>
     (mpc s = M_Select \<longrightarrow> int (length (workers s)) * interval cfg < duration cfg) \<and>
     (workers s \<noteq> [] \<longrightarrow> (int (length (workers s)) - 1) * interval cfg < duration cfg) \<and>
     i s = int (length (workers s))"

text \<open>The main goroutine is unwinding from a panic, or has crashed.\<close>

definition panicking :: "state \<Rightarrow> bool" where
  "panicking s \<longleftrightarrow>
     (case mpc s of
        M_LoadFailed e \<Rightarrow> e = ByPanic
      | M_LoadTotal e fc \<Rightarrow> e = ByPanic
      | M_OnceDo e \<Rightarrow> e = ByPanic
      | M_Crashed \<Rightarrow> True
      | _ \<Rightarrow> False)"

text \<open>Round robin: the worker at launch position \<open>k\<close> was launched at tick index \<open>k\<close>.\<close>

definition inv_C :: "client list \<Rightarrow> state \<Rightarrow> bool" where
  "inv_C clients s \<longleftrightarrow>
     (\<forall>k < length (workers s).
        wtick (workers s ! k) = int k \<and>
        wclient (workers s ! k) = clients ! (k mod length clients))"

text \<open>With a positive interval and a pool that is not empty nothing panics.\<close>

definition inv_N :: "ListConfig \<Rightarrow> client list \<Rightarrow> state \<Rightarrow> bool" where
  "inv_N cfg clients s \<longleftrightarrow> (0 < interval cfg \<and> clients \<noteq> [] \<longrightarrow> \<not> panicking s)"

text \<open>
  A worker has executed line 152; has executed line 169; has not yet called \<open>wg.Done()\<close>.
\<close>

definition past_total :: "worker \<Rightarrow> bool" where
  "past_total w \<longleftrightarrow> wpc w \<noteq> W_AddTotal"

definition did_fail :: "worker \<Rightarrow> bool" where
  "did_fail w \<longleftrightarrow> (wpc w = W_WgDone \<or> wpc w = W_Exited) \<and> err (wresp w) \<noteq> None"

definition live :: "worker \<Rightarrow> bool" where
  "live w \<longleftrightarrow> wpc w \<noteq> W_Exited"

text \<open>
  The log a worker must have at each program counter: the increment, the clock reading
  and the request; the drain and the close when there is a body; then the failed
  increment and the error, or the latency, the CSV row when a sink is configured, and nil.
\<close>

definition log_request :: "worker \<Rightarrow> action list" where
  "log_request w = [A_TotalAdd, A_Now (wstart w), A_Stream]"

definition log_body :: "worker \<Rightarrow> action list" where
  "log_body w =
     (case rc (wresp w) of None \<Rightarrow> [] | Some body \<Rightarrow> [A_Drain (read_error body), A_Close])"

definition log_result :: "bool \<Rightarrow> time \<Rightarrow> worker \<Rightarrow> action list" where
  "log_result c t w =
     (if err (wresp w) \<noteq> None then [A_FailedAdd, A_Return (err (wresp w))]
      else [A_Since t (wlatency w)] @ (if c then [A_CsvWrite (wlatency w)] else []) @
           [A_Return None])"

definition expected_log :: "bool \<Rightarrow> time \<Rightarrow> worker \<Rightarrow> action list" where
  "expected_log c t w =
     (case wpc w of
        W_AddTotal \<Rightarrow> []
      | W_Now \<Rightarrow> [A_TotalAdd]
      | W_Stream \<Rightarrow> [A_TotalAdd, A_Now (wstart w)]
      | W_Drain \<Rightarrow> log_request w
      | W_Close \<Rightarrow> log_request w @ butlast (log_body w)
      | W_CheckErr \<Rightarrow> log_request w @ log_body w
      | W_Csv \<Rightarrow> log_request w @ log_body w @ [A_Since t (wlatency w)]
      | W_WgDone \<Rightarrow> log_request w @ log_body w @ log_result c t w
      | W_Exited \<Rightarrow> log_request w @ log_body w @ log_result c t w @ [A_WgDone])"

text \<open>
  The invariant of one worker: its log is the expected one, its latency is
  \<open>time.Since\<close> of its start at the reading \<open>t\<close> of line 173, and its program counter fits
  its response.
\<close>

definition winv :: "bool \<Rightarrow> worker \<Rightarrow> bool" where
  "winv c w \<longleftrightarrow>
     (\<exists>t. wlog w = expected_log c t w \<and>
          (wpc w = W_Csv \<or> wpc w = W_WgDone \<or> wpc w = W_Exited \<longrightarrow> err (wresp w) = None \<longrightarrow>
             wlatency w = time_Since (wstart w) t) \<and>
          (wpc w = W_Close \<longrightarrow> rc (wresp w) \<noteq> None) \<and>
          (wpc w = W_Csv \<longrightarrow> err (wresp w) = None))"

definition inv_W :: "ListConfig \<Rightarrow> state \<Rightarrow> bool" where
  "inv_W cfg s \<longleftrightarrow> (\<forall>w \<in> set (workers s). winv (csvWriter_set cfg) w)"

text \<open>
  The counters count workers: \<open>totalCount\<close> those past line 152, \<open>failedCount\<close> those past
  line 169, the WaitGroup those not yet done. The failed count that the deferred function
  has loaded, and the summary it has logged, are bounded accordingly.
\<close>

definition inv_B :: "state \<Rightarrow> bool" where
  "inv_B s \<longleftrightarrow>
     unat (totalCount s) = cnt past_total (workers s) \<and>
     unat (failedCount s) = cnt did_fail (workers s) \<and>
     wg s = cnt live (workers s) \<and>
     (\<forall>e fc. mpc s = M_LoadTotal e fc \<longrightarrow> unat fc \<le> cnt did_fail (workers s)) \<and>
     (\<forall>x. summary s = Some x \<longrightarrow>
        unat (s_failed x) \<le> unat (s_total x) \<and>
        unat (s_total x) \<le> length (workers s) \<and>
        s_rate x = failure_rate (s_failed x) (s_total x))"

text \<open>
  \<open>listCommand\<close> returns nil only; an empty pool launches nothing; after the loop has ended
  by its condition the WaitGroup counter is zero.
\<close>

definition inv_R :: "client list \<Rightarrow> state \<Rightarrow> bool" where
  "inv_R clients s \<longleftrightarrow>
     (\<forall>e. mpc s \<noteq> M_Returned (Some e)) \<and>
     (clients = [] \<longrightarrow> workers s = []) \<and>
     (mpc s = M_LoadFailed ByDuration \<or> (\<exists>fc. mpc s = M_LoadTotal ByDuration fc) \<or>
      mpc s = M_OnceDo ByDuration \<longrightarrow> wg s = 0)"

text \<open>\<open>before a b xs\<close>: \<open>b\<close> occurs in \<open>xs\<close>, and \<open>a\<close> occurs ahead of its first occurrence.\<close>

definition before :: "'a \<Rightarrow> 'a \<Rightarrow> 'a list \<Rightarrow> bool" where
  "before a b xs \<longleftrightarrow> a \<in> set (takeWhile (\<lambda>x. x \<noteq> b) xs) \<and> b \<in> set xs"

text \<open>A worker has written its CSV row; the sink holds the rows of exactly these workers.\<close>

definition wrote :: "bool \<Rightarrow> worker \<Rightarrow> bool" where
  "wrote c w \<longleftrightarrow> c \<and> (wpc w = W_WgDone \<or> wpc w = W_Exited) \<and> err (wresp w) = None"

definition inv_S :: "ListConfig \<Rightarrow> state \<Rightarrow> bool" where
  "inv_S cfg s \<longleftrightarrow>
     (\<not> csvWriter_set cfg \<longrightarrow> csv s = []) \<and>
     length (csv s) = cnt (wrote (csvWriter_set cfg)) (workers s) \<and>
     (\<forall>l \<in> set (csv s). \<exists>w \<in> set (workers s). wrote (csvWriter_set cfg) w \<and> wlatency w = l)"

text \<open>\<open>cancel\<close> has run exactly when \<open>once\<close> is spent, and exactly then the context is done.\<close>

definition inv_H :: "state \<Rightarrow> bool" where
  "inv_H s \<longleftrightarrow>
     cancel_calls s = (if once_done s then 1 else 0) \<and>
     ctx_done s = once_done s \<and>
     (once_done s \<longrightarrow> mpc s \<noteq> M_Setup) \<and>
     (handler s = H_NotStarted \<longleftrightarrow> mpc s = M_Setup)"




text \<open>The turns a schedule gives to the signal goroutine.\<close>

fun is_HandlerStep :: "event \<Rightarrow> bool" where
  "is_HandlerStep (HandlerStep b) = True"
| "is_HandlerStep _ = False"

definition handler_turns :: "event list \<Rightarrow> nat" where
  "handler_turns sched = length (filter is_HandlerStep sched)"

text \<open>Once the context is done, the handler is past its start and the context stays done.\<close>

definition cancelled :: "state \<Rightarrow> bool" where
  "cancelled s \<longleftrightarrow> ctx_done s \<and> mpc s \<noteq> M_Setup \<and> handler s \<noteq> H_NotStarted"

text \<open>How many statements a worker still has to execute, at most.\<close>

fun rank :: "wpc \<Rightarrow> nat" where
  "rank W_AddTotal = 8"
| "rank W_Now = 7"
| "rank W_Stream = 6"
| "rank W_Drain = 5"
| "rank W_Close = 4"
| "rank W_CheckErr = 3"
| "rank W_Csv = 2"
| "rank W_WgDone = 1"
| "rank W_Exited = 0"

text \<open>The main goroutine has left the loop, and not by a panic.\<close>

definition past_loop :: "state \<Rightarrow> bool" where
  "past_loop s \<longleftrightarrow>
     (case mpc s of
        M_Wait \<Rightarrow> True
      | M_LoadFailed e \<Rightarrow> e \<noteq> ByPanic
      | M_LoadTotal e fc \<Rightarrow> e \<noteq> ByPanic
      | M_OnceDo e \<Rightarrow> e \<noteq> ByPanic
      | M_Returned v \<Rightarrow> v = None
      | _ \<Rightarrow> False)"

text \<open>In the loop and at \<open>wg.Wait()\<close> the ticker is running.\<close>

definition inv_T :: "state \<Rightarrow> bool" where
  "inv_T s \<longleftrightarrow> (mpc s = M_Cond \<or> mpc s = M_Select \<or> mpc s = M_Wait \<longrightarrow> ticker_on s)"

section \<open>Lemmas\<close>

subsection \<open>The tick interval\<close>

declare bits.simps [simp del]

lemma bits_0: "bits 0 = 0"
  by (simp add: bits.simps)

lemma bits_1: "bits (Suc 0) = Suc 0"
  by (simp add: bits.simps [of "Suc 0"] bits.simps [of 0])

lemma bits_Bit0: "bits (numeral (Num.Bit0 n)) = Suc (bits (numeral n))"
  by (subst bits.simps) simp

lemma bits_Bit1: "bits (numeral (Num.Bit1 n)) = Suc (bits (numeral n))"
  by (subst bits.simps) simp

lemmas bits_numeral = bits_0 bits_1 bits_Bit0 bits_Bit1

lemmas f32_defs =
  rate_interval_def f32_div_1e9_def f32_quotient_def quotient_exponent_def
  round_half_even_def duration_of_float32_def int64_indefinite_def Let_def bits_numeral

text \<open>
  A rate of 1 gives one second, a rate of 3 a third of a second as \<open>float32\<close> has it,
  a rate of -1 minus one second, and a rate of 0 the least \<open>int64\<close>.
\<close>

lemma rate_interval_one [simp]:
  "rate_interval (F32 False 1 0) = 1000000000"
  "rate_interval (F32 False (Suc 0) 0) = 1000000000"
  by (simp_all add: f32_defs)

lemma rate_interval_three: "rate_interval (F32 False 3 0) = 333333344"
  by (simp add: f32_defs)

lemma rate_interval_minus_one [simp]:
  "rate_interval (F32 True 1 0) = - 1000000000"
  "rate_interval (F32 True (Suc 0) 0) = - 1000000000"
  by (simp_all add: f32_defs)

lemma rate_interval_zero [simp]: "rate_interval (F32 False 0 0) = int64_indefinite"
  by (simp add: f32_defs)




subsection \<open>Runs and counting\<close>

text \<open>The statements of the main goroutine, in one table.\<close>

lemma listCommand_step_eq:
  "listCommand_step cfg clients pick_done s =
    (case mpc s of
       M_Setup \<Rightarrow> s\<lparr>notify_on := True, handler := H_Running, mpc := M_NewTicker\<rparr>
     | M_NewTicker \<Rightarrow>
         (if interval cfg \<le> 0 then s\<lparr>mpc := M_OnceDo ByPanic\<rparr>
          else s\<lparr>start := now s, ticker_on := True, mpc := M_Cond\<rparr>)
     | M_Cond \<Rightarrow>
         (if time_Since (start s) (now s) < duration cfg then s\<lparr>mpc := M_Select\<rparr>
          else s\<lparr>mpc := M_Wait\<rparr>)
     | M_Select \<Rightarrow>
         (if ctx_done s \<and> (\<not> tick_pending s \<or> pick_done) then s\<lparr>mpc := M_LoadFailed ByCancel\<rparr>
          else if tick_pending s then launch clients s
          else s)
     | M_Wait \<Rightarrow> (if wg s = 0 then s\<lparr>mpc := M_LoadFailed ByDuration\<rparr> else s)
     | M_LoadFailed e \<Rightarrow> s\<lparr>mpc := M_LoadTotal e (failedCount s)\<rparr>
     | M_LoadTotal e fc \<Rightarrow>
         s\<lparr>summary := Some \<lparr>s_failed = fc, s_total = totalCount s,
                              s_rate = failure_rate fc (totalCount s)\<rparr>,
           ticker_on := False,
           mpc := M_OnceDo e\<rparr>
     | M_OnceDo e \<Rightarrow>
         (once_Do_cancel s)\<lparr>mpc := (if e = ByPanic then M_Crashed else M_Returned None)\<rparr>
     | M_Returned v \<Rightarrow> s
     | M_Crashed \<Rightarrow> s)"
  by (cases "mpc s") (simp_all add: listCommand_step_def listObjects_step_def)

lemma run_Nil: "run cfg clients [] = init"
  by (simp add: run_def)

lemma run_snoc: "run cfg clients (sched @ [e]) = step cfg clients (run cfg clients sched) e"
  by (simp add: run_def)

lemma cnt_Nil: "cnt P [] = 0"
  by (simp add: cnt_def)

lemma cnt_snoc: "cnt P (xs @ [x]) = cnt P xs + (if P x then 1 else 0)"
  by (simp add: cnt_def)

lemma cnt_le_length: "cnt P xs \<le> length xs"
  by (simp add: cnt_def)

lemma cnt_update:
  "k < length xs \<Longrightarrow>
   cnt P (xs[k := y]) + (if P (xs ! k) then 1 else 0) = cnt P xs + (if P y then 1 else 0)"
proof (induction xs arbitrary: k)
  case Nil
  then show ?case by simp
next
  case (Cons x xs)
  show ?case
  proof (cases k)
    case 0
    then show ?thesis by (simp add: cnt_def)
  next
    case (Suc j)
    with Cons.prems have "j < length xs" by simp
    from Cons.IH [OF this] Suc show ?thesis by (simp add: cnt_def)
  qed
qed

lemma cnt_mono: "(\<And>x. x \<in> set xs \<Longrightarrow> P x \<Longrightarrow> Q x) \<Longrightarrow> cnt P xs \<le> cnt Q xs"
proof (induction xs)
  case Nil
  then show ?case by (simp add: cnt_def)
next
  case (Cons x xs)
  then show ?case by (auto simp: cnt_def)
qed

lemma cnt_less_length: "k < length xs \<Longrightarrow> \<not> P (xs ! k) \<Longrightarrow> cnt P xs < length xs"
proof (induction xs arbitrary: k)
  case Nil
  then show ?case by simp
next
  case (Cons x xs)
  show ?case
  proof (cases k)
    case 0
    with Cons.prems have "\<not> P x" by simp
    then show ?thesis using length_filter_le [of P xs] by (simp add: cnt_def less_Suc_eq_le)
  next
    case (Suc j)
    with Cons.prems have "cnt P xs < length xs" using Cons.IH [of j] by simp
    then show ?thesis by (simp add: cnt_def)
  qed
qed

subsection \<open>Time, ticks and the loop counter\<close>

lemma duration_lt: "duration cfg < 2 ^ 63"
  using sint_lt [of "totalDuration cfg"] by (simp add: duration_def)

lemma inv_A_init: "inv_A cfg init"
  by (simp add: inv_A_def init_def)

lemma scale_le: "0 \<le> (a::int) \<Longrightarrow> 0 < c \<Longrightarrow> a \<le> a * c"
  by (simp add: mult_le_cancel_left1)

lemma inv_A_pos: "inv_A cfg s \<Longrightarrow> workers s \<noteq> [] \<or> tick_pending s \<or> 0 < fired s \<Longrightarrow> 0 < interval cfg"
  by (auto simp: inv_A_def)

lemma inv_A_length: 
  assumes "inv_A cfg s"
  shows "int (length (workers s)) < 2 ^ 63"
proof (cases "workers s = []")
  case True
  then show ?thesis by simp
next
  case False
  with assms have pos: "0 < interval cfg" by (auto simp: inv_A_def)
  from False assms have "(int (length (workers s)) - 1) * interval cfg < duration cfg"
    by (simp add: inv_A_def)
  moreover from False have "0 \<le> int (length (workers s)) - 1"
    by (cases "workers s") simp_all
  from scale_le [OF this pos]
  have "int (length (workers s)) - 1 \<le> (int (length (workers s)) - 1) * interval cfg" .
  ultimately show ?thesis using duration_lt [of cfg] by simp
qed

declare listOnce_step.simps [simp del]

lemma worker_step_frame:
  "now (worker_step cfg k r s) = now s"
  "start (worker_step cfg k r s) = start s"
  "ticker_on (worker_step cfg k r s) = ticker_on s"
  "fired (worker_step cfg k r s) = fired s"
  "tick_pending (worker_step cfg k r s) = tick_pending s"
  "notify_on (worker_step cfg k r s) = notify_on s"
  "sig_pending (worker_step cfg k r s) = sig_pending s"
  "handler (worker_step cfg k r s) = handler s"
  "ctx_done (worker_step cfg k r s) = ctx_done s"
  "once_done (worker_step cfg k r s) = once_done s"
  "cancel_calls (worker_step cfg k r s) = cancel_calls s"
  "mpc (worker_step cfg k r s) = mpc s"
  "i (worker_step cfg k r s) = i s"
  "summary (worker_step cfg k r s) = summary s"
  "length (workers (worker_step cfg k r s)) = length (workers s)"
  by (simp_all add: worker_step_def apply_effect_def split: prod.split effect.split)

lemma worker_step_Nil: "workers (worker_step cfg k r s) = [] \<longleftrightarrow> workers s = []"
  using worker_step_frame(15) [of cfg k r s] by (metis length_0_conv)

lemma inv_A_worker: "inv_A cfg s \<Longrightarrow> inv_A cfg (worker_step cfg k r s)"
  by (simp add: inv_A_def worker_step_frame worker_step_Nil)

lemma once_Do_cancel_frame:
  "now (once_Do_cancel s) = now s"
  "start (once_Do_cancel s) = start s"
  "ticker_on (once_Do_cancel s) = ticker_on s"
  "fired (once_Do_cancel s) = fired s"
  "tick_pending (once_Do_cancel s) = tick_pending s"
  "notify_on (once_Do_cancel s) = notify_on s"
  "sig_pending (once_Do_cancel s) = sig_pending s"
  "handler (once_Do_cancel s) = handler s"
  "mpc (once_Do_cancel s) = mpc s"
  "i (once_Do_cancel s) = i s"
  "workers (once_Do_cancel s) = workers s"
  "wg (once_Do_cancel s) = wg s"
  "totalCount (once_Do_cancel s) = totalCount s"
  "failedCount (once_Do_cancel s) = failedCount s"
  "csv (once_Do_cancel s) = csv s"
  "summary (once_Do_cancel s) = summary s"
  by (simp_all add: once_Do_cancel_def)

lemma handler_step_frame:
  "now (handler_step b s) = now s"
  "start (handler_step b s) = start s"
  "ticker_on (handler_step b s) = ticker_on s"
  "fired (handler_step b s) = fired s"
  "tick_pending (handler_step b s) = tick_pending s"
  "notify_on (handler_step b s) = notify_on s"
  "mpc (handler_step b s) = mpc s"
  "i (handler_step b s) = i s"
  "workers (handler_step b s) = workers s"
  "wg (handler_step b s) = wg s"
  "totalCount (handler_step b s) = totalCount s"
  "failedCount (handler_step b s) = failedCount s"
  "csv (handler_step b s) = csv s"
  "summary (handler_step b s) = summary s"
  by (simp_all add: handler_step_def once_Do_cancel_frame)

lemma signal_arrive_frame:
  "now (signal_arrive s) = now s"
  "start (signal_arrive s) = start s"
  "ticker_on (signal_arrive s) = ticker_on s"
  "fired (signal_arrive s) = fired s"
  "tick_pending (signal_arrive s) = tick_pending s"
  "notify_on (signal_arrive s) = notify_on s"
  "handler (signal_arrive s) = handler s"
  "ctx_done (signal_arrive s) = ctx_done s"
  "once_done (signal_arrive s) = once_done s"
  "cancel_calls (signal_arrive s) = cancel_calls s"
  "mpc (signal_arrive s) = mpc s"
  "i (signal_arrive s) = i s"
  "workers (signal_arrive s) = workers s"
  "wg (signal_arrive s) = wg s"
  "totalCount (signal_arrive s) = totalCount s"
  "failedCount (signal_arrive s) = failedCount s"
  "csv (signal_arrive s) = csv s"
  "summary (signal_arrive s) = summary s"
  by (simp_all add: signal_arrive_def)

lemma ticker_fire_frame:
  "now (ticker_fire cfg s) = now s"
  "start (ticker_fire cfg s) = start s"
  "ticker_on (ticker_fire cfg s) = ticker_on s"
  "notify_on (ticker_fire cfg s) = notify_on s"
  "sig_pending (ticker_fire cfg s) = sig_pending s"
  "handler (ticker_fire cfg s) = handler s"
  "ctx_done (ticker_fire cfg s) = ctx_done s"
  "once_done (ticker_fire cfg s) = once_done s"
  "cancel_calls (ticker_fire cfg s) = cancel_calls s"
  "mpc (ticker_fire cfg s) = mpc s"
  "i (ticker_fire cfg s) = i s"
  "workers (ticker_fire cfg s) = workers s"
  "wg (ticker_fire cfg s) = wg s"
  "totalCount (ticker_fire cfg s) = totalCount s"
  "failedCount (ticker_fire cfg s) = failedCount s"
  "csv (ticker_fire cfg s) = csv s"
  "summary (ticker_fire cfg s) = summary s"
  by (simp_all add: ticker_fire_def)

lemma inv_A_handler: "inv_A cfg s \<Longrightarrow> inv_A cfg (handler_step b s)"
  by (simp add: inv_A_def handler_step_frame)

lemma inv_A_signal: "inv_A cfg s \<Longrightarrow> inv_A cfg (signal_arrive s)"
  by (simp add: inv_A_def signal_arrive_frame)

lemma inv_A_advance: "inv_A cfg s \<Longrightarrow> inv_A cfg (s\<lparr>now := now s + d\<rparr>)"
  by (simp add: inv_A_def)

lemma inv_A_ticker:
  assumes "inv_A cfg s"
  shows "inv_A cfg (ticker_fire cfg s)"
proof (cases "ticker_on s \<and> int (fired s + 1) * interval cfg \<le> int (now s) - int (start s)")
  case True
  then have eq: "ticker_fire cfg s = s\<lparr>fired := fired s + 1, tick_pending := True\<rparr>"
    by (simp add: ticker_fire_def)
  from assms True show ?thesis
    unfolding eq inv_A_def by simp
next
  case False
  then have "ticker_fire cfg s = s" unfolding ticker_fire_def by (rule if_not_P)
  with assms show ?thesis by simp
qed

lemma smod_nonneg: "0 \<le> (a::int) \<Longrightarrow> 0 < b \<Longrightarrow> a smod b = a mod b"
  by (cases "a = 0") (simp_all add: signed_modulo_int_def)

lemma wrap64_id: "0 \<le> x \<Longrightarrow> x < 2 ^ 63 \<Longrightarrow> wrap64 x = x"
  by (simp add: wrap64_def)

lemma launch_ok:
  assumes "inv_A cfg s" "mpc s = M_Select" "clients \<noteq> []"
  shows "launch clients s =
     s\<lparr>tick_pending := False,
       workers := workers s @
         [new_worker (int (length (workers s))) (clients ! (length (workers s) mod length clients))],
       wg := wg s + 1,
       i := int (length (workers s)) + 1,
       mpc := M_Cond\<rparr>"
proof -
  let ?n = "int (length clients)"
  let ?l = "int (length (workers s))"
  from assms(3) have n: "0 < ?n" by simp
  from assms(1) have i: "i s = ?l" by (simp add: inv_A_def)
  have idx: "i s smod ?n = ?l mod ?n" using n i by (simp add: smod_nonneg)
  have lo: "0 \<le> ?l mod ?n" and hi: "?l mod ?n < ?n" using n by simp_all
  have nat_idx: "nat (?l mod ?n) = length (workers s) mod length clients"
    by (simp add: zmod_int [symmetric] del: of_nat_mod)
  from assms(1,2) have lt: "?l * interval cfg < duration cfg" by (simp add: inv_A_def)
  have pos: "0 < interval cfg"
  proof (rule ccontr)
    assume "\<not> 0 < interval cfg"
    with assms(1,2) show False by (simp add: inv_A_def)
  qed
  have "?l \<le> ?l * interval cfg" using scale_le [OF _ pos, of ?l] by simp
  with lt duration_lt [of cfg] have "?l + 1 < 2 ^ 63" by simp
  then have w: "wrap64 (i s + 1) = ?l + 1" using i by (simp add: wrap64_id)
  from n have ne: "?n \<noteq> 0" by simp
  from lo hi idx have c: "\<not> (i s smod ?n < 0 \<or> ?n \<le> i s smod ?n)" by simp
  show ?thesis
    unfolding launch_def Let_def if_not_P [OF ne] if_not_P [OF c] w
    unfolding idx nat_idx
    unfolding i ..
qed

lemma launch_empty:
  "launch [] s = s\<lparr>tick_pending := False, mpc := M_LoadFailed ByPanic\<rparr>"
  by (simp add: launch_def)

lemma inv_A_launch:
  assumes "inv_A cfg s" "mpc s = M_Select" "tick_pending s"
  shows "inv_A cfg (launch clients s)"
proof (cases "clients = []")
  case True
  from assms have "0 < interval cfg" by (auto simp: inv_A_def)
  with assms show ?thesis unfolding True launch_empty inv_A_def by auto
next
  case False
  from assms have pos: "0 < interval cfg" by (auto simp: inv_A_def)
  from assms(1,2) have lt: "int (length (workers s)) * interval cfg < duration cfg"
    by (simp add: inv_A_def)
  from assms(1,3) have fl: "length (workers s) + 1 \<le> fired s" by (simp add: inv_A_def)
  from assms(1) have rest: "start s \<le> now s"
     "int (fired s) * interval cfg \<le> int (now s) - int (start s)"
     "ticker_on s \<or> summary s \<noteq> None"
    using assms(3) by (auto simp: inv_A_def)
  show ?thesis
    unfolding launch_ok [OF assms(1,2) False] inv_A_def
    using pos lt fl rest by auto
qed

lemma inv_A_main:
  assumes "inv_A cfg s"
  shows "inv_A cfg (listCommand_step cfg clients b s)"
proof (cases "mpc s")
  case M_Setup
  with assms show ?thesis by (simp add: listCommand_step_eq inv_A_def)
next
  case M_NewTicker
  with assms show ?thesis by (simp add: listCommand_step_eq inv_A_def)
next
  case M_Cond
  from assms M_Cond have pos: "0 < interval cfg" by (auto simp: inv_A_def)
  show ?thesis
  proof (cases "time_Since (start s) (now s) < duration cfg")
    case True
    with M_Cond have eq: "listCommand_step cfg clients b s = s\<lparr>mpc := M_Select\<rparr>"
      by (simp add: listCommand_step_eq)
    from assms have "int (length (workers s)) \<le> int (fired s)" by (simp add: inv_A_def)
    then have "int (length (workers s)) * interval cfg \<le> int (fired s) * interval cfg"
      using pos by (simp add: mult_right_mono)
    also from assms have "\<dots> \<le> int (now s) - int (start s)" by (simp add: inv_A_def)
    finally have le: "int (length (workers s)) * interval cfg \<le> int (now s) - int (start s)" .
    have "int (length (workers s)) * interval cfg < duration cfg"
    proof (cases "int (now s) - int (start s) \<le> maxInt64")
      case True
      with \<open>time_Since (start s) (now s) < duration cfg\<close> le show ?thesis
        by (simp add: time_Since_def)
    next
      case False
      with \<open>time_Since (start s) (now s) < duration cfg\<close> duration_lt [of cfg] show ?thesis
        by (simp add: time_Since_def maxInt64_def)
    qed
    with assms pos show ?thesis unfolding eq inv_A_def by simp
  next
    case False
    with M_Cond have eq: "listCommand_step cfg clients b s = s\<lparr>mpc := M_Wait\<rparr>"
      by (simp add: listCommand_step_eq)
    from assms pos show ?thesis unfolding eq inv_A_def by simp
  qed
next
  case M_Select
  from assms M_Select have pos: "0 < interval cfg" by (auto simp: inv_A_def)
  consider (cancel) "ctx_done s \<and> (\<not> tick_pending s \<or> b)"
    | (tick) "\<not> (ctx_done s \<and> (\<not> tick_pending s \<or> b))" "tick_pending s"
    | (block) "\<not> (ctx_done s \<and> (\<not> tick_pending s \<or> b))" "\<not> tick_pending s"
    by blast
  then show ?thesis
  proof cases
    case cancel
    with M_Select have eq: "listCommand_step cfg clients b s = s\<lparr>mpc := M_LoadFailed ByCancel\<rparr>"
      by (simp add: listCommand_step_eq)
    from assms pos show ?thesis unfolding eq inv_A_def by simp
  next
    case tick
    with M_Select have eq: "listCommand_step cfg clients b s = launch clients s"
      by (auto simp add: listCommand_step_eq)
    show ?thesis unfolding eq by (rule inv_A_launch [OF assms M_Select tick(2)])
  next
    case block
    with M_Select have eq: "listCommand_step cfg clients b s = s"
      by (auto simp add: listCommand_step_eq)
    from assms show ?thesis unfolding eq .
  qed
next
  case M_Wait
  from assms M_Wait have pos: "0 < interval cfg" by (auto simp: inv_A_def)
  with assms M_Wait show ?thesis by (simp add: listCommand_step_eq inv_A_def)
next
  case (M_LoadFailed e)
  from assms M_LoadFailed have pos: "0 < interval cfg" by (auto simp: inv_A_def)
  with assms M_LoadFailed show ?thesis by (simp add: listCommand_step_eq inv_A_def)
next
  case (M_LoadTotal e fc)
  from assms M_LoadTotal have pos: "0 < interval cfg" by (auto simp: inv_A_def)
  with assms M_LoadTotal show ?thesis by (simp add: listCommand_step_eq inv_A_def)
next
  case (M_OnceDo e)
  have eq: "listCommand_step cfg clients b s =
      (once_Do_cancel s)\<lparr>mpc := (if e = ByPanic then M_Crashed else M_Returned None)\<rparr>"
    using M_OnceDo by (simp add: listCommand_step_eq)
  from assms M_OnceDo show ?thesis
    unfolding eq inv_A_def by (auto simp: once_Do_cancel_frame)
next
  case (M_Returned v)
  with assms show ?thesis by (simp add: listCommand_step_eq)
next
  case M_Crashed
  with assms show ?thesis by (simp add: listCommand_step_eq)
qed

lemma inv_A_step: "inv_A cfg s \<Longrightarrow> inv_A cfg (step cfg clients s e)"
  by (cases e) (simp_all add: inv_A_advance inv_A_ticker inv_A_signal inv_A_handler inv_A_main
      inv_A_worker)

lemma inv_A_run: "inv_A cfg (run cfg clients sched)"
  by (induction sched rule: rev_induct) (simp_all add: run_Nil run_snoc inv_A_init inv_A_step)

subsection \<open>Round robin and the absence of panics\<close>

lemma listOnce_step_keeps:
  "wtick (fst (listOnce_step c t r w)) = wtick w"
  "wclient (fst (listOnce_step c t r w)) = wclient w"
  by (simp_all add: listOnce_step.simps did_def Let_def split: wpc.split option.split)

lemma worker_step_workers:
  "k < length (workers s) \<Longrightarrow>
   workers (worker_step cfg k r s) =
     (workers s)[k := fst (listOnce_step (csvWriter_set cfg) (now s) r (workers s ! k))]"
  by (simp add: worker_step_def apply_effect_def split: prod.split effect.split)

lemma worker_step_skip: "\<not> k < length (workers s) \<Longrightarrow> worker_step cfg k r s = s"
  by (simp add: worker_step_def)

lemma inv_C_worker:
  assumes "inv_C clients s"
  shows "inv_C clients (worker_step cfg k r s)"
proof (cases "k < length (workers s)")
  case True
  show ?thesis
    unfolding inv_C_def worker_step_workers [OF True]
  proof (intro allI impI)
    fix j
    assume "j < length ((workers s)[k := fst (listOnce_step (csvWriter_set cfg) (now s) r (workers s ! k))])"
    then have j: "j < length (workers s)" by simp
    with assms have "wtick (workers s ! j) = int j \<and>
        wclient (workers s ! j) = clients ! (j mod length clients)"
      by (simp add: inv_C_def)
    then show "wtick ((workers s)[k := fst (listOnce_step (csvWriter_set cfg) (now s) r (workers s ! k))] ! j) = int j \<and>
        wclient ((workers s)[k := fst (listOnce_step (csvWriter_set cfg) (now s) r (workers s ! k))] ! j) =
          clients ! (j mod length clients)"
      using j by (cases "j = k") (simp_all add: listOnce_step_keeps)
  qed
next
  case False
  with assms show ?thesis by (simp add: worker_step_skip)
qed

lemma listCommand_step_workers:
  "workers (listCommand_step cfg clients b s) = workers s \<or>
   (mpc s = M_Select \<and> tick_pending s \<and> listCommand_step cfg clients b s = launch clients s)"
  by (cases "mpc s") (auto simp: listCommand_step_eq once_Do_cancel_frame)

lemma inv_C_main:
  assumes "inv_A cfg s" "inv_C clients s"
  shows "inv_C clients (listCommand_step cfg clients b s)"
proof -
  from listCommand_step_workers [of cfg clients b s]
  consider (same) "workers (listCommand_step cfg clients b s) = workers s"
    | (launch) "mpc s = M_Select" "tick_pending s" "listCommand_step cfg clients b s = launch clients s"
    by blast
  then show ?thesis
  proof cases
    case same
    with assms(2) show ?thesis by (simp add: inv_C_def)
  next
    case launch
    show ?thesis
    proof (cases "clients = []")
      case True
      with assms(2) show ?thesis unfolding launch(3) by (simp add: launch_empty inv_C_def)
    next
      case False
      from assms(2) show ?thesis
        unfolding launch(3) launch_ok [OF assms(1) launch(1) False] inv_C_def
        by (auto simp: nth_append new_worker_def less_Suc_eq)
    qed
  qed
qed

lemma inv_C_step:
  "inv_A cfg s \<Longrightarrow> inv_C clients s \<Longrightarrow> inv_C clients (step cfg clients s e)"
  by (cases e)
    (simp_all add: inv_C_main inv_C_worker,
     simp_all add: inv_C_def ticker_fire_frame signal_arrive_frame handler_step_frame)

lemma inv_C_run: "inv_C clients (run cfg clients sched)"
proof (induction sched rule: rev_induct)
  case Nil
  show ?case by (simp add: run_Nil inv_C_def init_def)
next
  case (snoc e sched)
  then show ?case unfolding run_snoc by (rule inv_C_step [OF inv_A_run])
qed

lemma inv_N_main:
  assumes "inv_A cfg s" "inv_N cfg clients s"
  shows "inv_N cfg clients (listCommand_step cfg clients b s)"
proof (cases "0 < interval cfg \<and> clients \<noteq> []")
  case True
  with assms(2) have np: "\<not> panicking s" by (simp add: inv_N_def)
  have "\<not> panicking (listCommand_step cfg clients b s)"
  proof (cases "mpc s = M_Select \<and> tick_pending s \<and> \<not> (ctx_done s \<and> b)")
    case True
    then have "listCommand_step cfg clients b s = launch clients s"
      by (auto simp: listCommand_step_eq)
    then show ?thesis
      using launch_ok [OF assms(1), of clients] True \<open>0 < interval cfg \<and> clients \<noteq> []\<close>
      by (simp add: panicking_def)
  next
    case False
    with np True show ?thesis
      by (cases "mpc s") (auto simp: listCommand_step_eq panicking_def once_Do_cancel_frame)
  qed
  then show ?thesis by (simp add: inv_N_def)
next
  case False
  then show ?thesis by (auto simp: inv_N_def)
qed

lemma inv_N_step:
  "inv_A cfg s \<Longrightarrow> inv_N cfg clients s \<Longrightarrow> inv_N cfg clients (step cfg clients s e)"
  by (cases e)
    (simp_all add: inv_N_main,
     simp_all add: inv_N_def panicking_def ticker_fire_frame signal_arrive_frame
       handler_step_frame worker_step_frame)

lemma inv_N_run: "inv_N cfg clients (run cfg clients sched)"
proof (induction sched rule: rev_induct)
  case Nil
  show ?case by (simp add: run_Nil inv_N_def init_def panicking_def)
next
  case (snoc e sched)
  then show ?case unfolding run_snoc by (rule inv_N_step [OF inv_A_run])
qed

subsection \<open>Evaluating a run\<close>

lemmas eval_defs =
  run_def init_def listCommand_step_eq interval_def duration_def time_Since_def maxInt64_def
  ticker_fire_def signal_arrive_def handler_step_def once_Do_cancel_def launch_def Let_def
  wrap64_def new_worker_def worker_step_def listOnce_step.simps did_def apply_effect_def
  csvWriter_set_def failure_rate_def float64_of_uint64_def signed_modulo_int_def

lemma two_ticks_workers:
  "workers (run example_config [7] sched_two_ticks) = [new_worker 0 7, new_worker 1 7]"
  by (simp add: example_config_def sched_two_ticks_def eval_defs)

lemma two_ticks_mpc:
  "mpc (run example_config [7] sched_two_ticks) = M_Cond"
  by (simp add: example_config_def sched_two_ticks_def eval_defs)

subsection \<open>The log of a worker\<close>

lemma winv_new: "winv c (new_worker k cl)"
  by (simp add: winv_def new_worker_def expected_log_def)

lemma winv_step:
  assumes "winv c w"
  shows "winv c (fst (listOnce_step c t r w))"
proof -
  from assms obtain t0 where
    lg: "wlog w = expected_log c t0 w" and
    lat: "wpc w = W_Csv \<or> wpc w = W_WgDone \<or> wpc w = W_Exited \<longrightarrow> err (wresp w) = None \<longrightarrow>
             wlatency w = time_Since (wstart w) t0" and
    rcs: "wpc w = W_Close \<longrightarrow> rc (wresp w) \<noteq> None" and
    er: "wpc w = W_Csv \<longrightarrow> err (wresp w) = None"
    by (auto simp: winv_def)
  show ?thesis
  proof (cases "wpc w")
    case W_CheckErr
    with lg show ?thesis
      unfolding winv_def
      by (intro exI [of _ t])
         (auto simp add: listOnce_step.simps did_def Let_def expected_log_def log_request_def
            log_body_def log_result_def)
  next
    case W_AddTotal
    with lg show ?thesis
      unfolding winv_def
      by (intro exI [of _ t0])
         (auto simp add: listOnce_step.simps did_def expected_log_def)
  next
    case W_Now
    with lg show ?thesis
      unfolding winv_def
      by (intro exI [of _ t0])
         (auto simp add: listOnce_step.simps did_def expected_log_def)
  next
    case W_Stream
    with lg show ?thesis
      unfolding winv_def
      by (intro exI [of _ t0])
         (auto simp add: listOnce_step.simps did_def expected_log_def log_request_def)
  next
    case W_Drain
    with lg show ?thesis
      unfolding winv_def
      by (intro exI [of _ t0])
         (auto simp add: listOnce_step.simps did_def expected_log_def log_request_def
            log_body_def split: option.split)
  next
    case W_Close
    with lg rcs show ?thesis
      unfolding winv_def
      by (intro exI [of _ t0])
         (auto simp add: listOnce_step.simps did_def expected_log_def log_request_def
            log_body_def split: option.split)
  next
    case W_Csv
    with lg lat er show ?thesis
      unfolding winv_def
      by (intro exI [of _ t0])
         (auto simp add: listOnce_step.simps did_def expected_log_def log_request_def log_body_def
            log_result_def)
  next
    case W_WgDone
    with lg lat show ?thesis
      unfolding winv_def
      by (intro exI [of _ t0])
         (auto simp add: listOnce_step.simps did_def expected_log_def log_request_def log_body_def
            log_result_def)
  next
    case W_Exited
    with assms show ?thesis by (simp add: listOnce_step.simps)
  qed
qed

lemma inv_W_worker:
  assumes "inv_W cfg s"
  shows "inv_W cfg (worker_step cfg k r s)"
proof (cases "k < length (workers s)")
  case True
  let ?w' = "fst (listOnce_step (csvWriter_set cfg) (now s) r (workers s ! k))"
  from True assms have "winv (csvWriter_set cfg) (workers s ! k)" by (simp add: inv_W_def)
  then have new: "winv (csvWriter_set cfg) ?w'" by (rule winv_step)
  show ?thesis
    unfolding inv_W_def worker_step_workers [OF True]
  proof
    fix w
    assume "w \<in> set ((workers s)[k := ?w'])"
    then have "w = ?w' \<or> w \<in> set (workers s)"
      using set_update_subset_insert [of "workers s" k ?w'] by auto
    with new assms show "winv (csvWriter_set cfg) w" by (auto simp: inv_W_def)
  qed
next
  case False
  with assms show ?thesis by (simp add: worker_step_skip)
qed

lemma inv_W_main:
  assumes "inv_A cfg s" "inv_W cfg s"
  shows "inv_W cfg (listCommand_step cfg clients b s)"
proof -
  from listCommand_step_workers [of cfg clients b s]
  consider (same) "workers (listCommand_step cfg clients b s) = workers s"
    | (launch) "mpc s = M_Select" "tick_pending s" "listCommand_step cfg clients b s = launch clients s"
    by blast
  then show ?thesis
  proof cases
    case same
    with assms(2) show ?thesis by (simp add: inv_W_def)
  next
    case launch
    show ?thesis
    proof (cases "clients = []")
      case True
      with assms(2) show ?thesis unfolding launch(3) by (simp add: launch_empty inv_W_def)
    next
      case False
      from assms(2) show ?thesis
        unfolding launch(3) launch_ok [OF assms(1) launch(1) False] inv_W_def
        by (auto simp: winv_new)
    qed
  qed
qed

lemma inv_W_step:
  "inv_A cfg s \<Longrightarrow> inv_W cfg s \<Longrightarrow> inv_W cfg (step cfg clients s e)"
  by (cases e)
    (simp_all add: inv_W_main inv_W_worker,
     simp_all add: inv_W_def ticker_fire_frame signal_arrive_frame handler_step_frame)

lemma inv_W_run: "inv_W cfg (run cfg clients sched)"
proof (induction sched rule: rev_induct)
  case Nil
  show ?case by (simp add: run_Nil inv_W_def init_def)
next
  case (snoc e sched)
  then show ?case unfolding run_snoc by (rule inv_W_step [OF inv_A_run])
qed

subsection \<open>The counters\<close>

lemma listOnce_step_effect:
  assumes "winv c w" "listOnce_step c t r w = (w', e)"
  shows "(past_total w' \<longleftrightarrow> past_total w \<or> e = E_TotalAdd)"
    "e = E_TotalAdd \<Longrightarrow> \<not> past_total w"
    "(did_fail w' \<longleftrightarrow> did_fail w \<or> e = E_FailedAdd)"
    "e = E_FailedAdd \<Longrightarrow> \<not> did_fail w"
    "(live w \<longleftrightarrow> live w' \<or> e = E_WgDone)"
    "e = E_WgDone \<Longrightarrow> \<not> live w'"
proof -
  from assms(1) have er: "wpc w = W_Csv \<longrightarrow> err (wresp w) = None"
    by (auto simp: winv_def)
  have "(past_total w' \<longleftrightarrow> past_total w \<or> e = E_TotalAdd) \<and>
    (e = E_TotalAdd \<longrightarrow> \<not> past_total w) \<and>
    (did_fail w' \<longleftrightarrow> did_fail w \<or> e = E_FailedAdd) \<and>
    (e = E_FailedAdd \<longrightarrow> \<not> did_fail w) \<and>
    (live w \<longleftrightarrow> live w' \<or> e = E_WgDone) \<and>
    (e = E_WgDone \<longrightarrow> \<not> live w')"
    using assms(2) er
    by (cases "wpc w")
      (auto simp: listOnce_step.simps did_def Let_def past_total_def did_fail_def live_def
         split: if_splits option.splits)
  then show "(past_total w' \<longleftrightarrow> past_total w \<or> e = E_TotalAdd)"
    "e = E_TotalAdd \<Longrightarrow> \<not> past_total w"
    "(did_fail w' \<longleftrightarrow> did_fail w \<or> e = E_FailedAdd)"
    "e = E_FailedAdd \<Longrightarrow> \<not> did_fail w"
    "(live w \<longleftrightarrow> live w' \<or> e = E_WgDone)"
    "e = E_WgDone \<Longrightarrow> \<not> live w'"
    by blast+
qed

lemma unat_incr: "unat (x :: 64 word) < 2 ^ 63 \<Longrightarrow> unat (x + 1) = unat x + 1"
  by (simp add: unat_word_ariths)

lemma did_fail_past: "did_fail w \<Longrightarrow> past_total w"
  by (auto simp: did_fail_def past_total_def)

lemma cnt_fail_le_total: "cnt did_fail ws \<le> cnt past_total ws"
  by (rule cnt_mono) (rule did_fail_past)

lemma inv_B_worker:
  assumes A: "inv_A cfg s" and W: "inv_W cfg s" and B: "inv_B s"
  shows "inv_B (worker_step cfg k r s)"
proof (cases "k < length (workers s)")
  case True
  let ?w = "workers s ! k"
  let ?ws = "workers s"
  obtain w' e where st: "listOnce_step (csvWriter_set cfg) (now s) r ?w = (w', e)"
    by (cases "listOnce_step (csvWriter_set cfg) (now s) r ?w")
  have eq: "worker_step cfg k r s = apply_effect e (s\<lparr>workers := ?ws[k := w']\<rparr>)"
    using True st by (simp add: worker_step_def)
  from True W have wi: "winv (csvWriter_set cfg) ?w" by (simp add: inv_W_def)
  note eff = listOnce_step_effect [OF wi st]
  have cp: "cnt past_total (?ws[k := w']) + (if past_total ?w then 1 else 0) =
      cnt past_total ?ws + (if past_total w' then 1 else 0)"
    by (rule cnt_update [OF True])
  have cf: "cnt did_fail (?ws[k := w']) + (if did_fail ?w then 1 else 0) =
      cnt did_fail ?ws + (if did_fail w' then 1 else 0)"
    by (rule cnt_update [OF True])
  have cl: "cnt live (?ws[k := w']) + (if live ?w then 1 else 0) =
      cnt live ?ws + (if live w' then 1 else 0)"
    by (rule cnt_update [OF True])
  from inv_A_length [OF A] have len: "length ?ws < 2 ^ 63"
    by (metis of_nat_less_iff of_nat_numeral of_nat_power)
  from B have b1: "unat (totalCount s) = cnt past_total ?ws"
    and b2: "unat (failedCount s) = cnt did_fail ?ws"
    and b3: "wg s = cnt live ?ws"
    and b4: "\<forall>e fc. mpc s = M_LoadTotal e fc \<longrightarrow> unat fc \<le> cnt did_fail ?ws"
    and b5: "\<forall>x. summary s = Some x \<longrightarrow>
        unat (s_failed x) \<le> unat (s_total x) \<and>
        unat (s_total x) \<le> length ?ws \<and>
        s_rate x = failure_rate (s_failed x) (s_total x)"
    by (simp_all add: inv_B_def)
  show ?thesis
  proof (cases e)
    case E_None
    with eff have "past_total w' = past_total ?w" "did_fail w' = did_fail ?w" "live w' = live ?w"
      by simp_all
    with cp cf cl have "cnt past_total (?ws[k := w']) = cnt past_total ?ws"
      "cnt did_fail (?ws[k := w']) = cnt did_fail ?ws"
      "cnt live (?ws[k := w']) = cnt live ?ws" by simp_all
    with b1 b2 b3 b4 b5 show ?thesis
      unfolding eq E_None inv_B_def apply_effect_def by simp
  next
    case (E_CsvWrite l)
    with eff have "past_total w' = past_total ?w" "did_fail w' = did_fail ?w" "live w' = live ?w"
      by simp_all
    with cp cf cl have "cnt past_total (?ws[k := w']) = cnt past_total ?ws"
      "cnt did_fail (?ws[k := w']) = cnt did_fail ?ws"
      "cnt live (?ws[k := w']) = cnt live ?ws" by simp_all
    with b1 b2 b3 b4 b5 show ?thesis
      unfolding eq E_CsvWrite inv_B_def apply_effect_def by simp
  next
    case E_TotalAdd
    with eff have p: "\<not> past_total ?w" "past_total w'"
      and o: "did_fail w' = did_fail ?w" "live w' = live ?w"
      by simp_all
    with cp cf cl have c: "cnt past_total (?ws[k := w']) = cnt past_total ?ws + 1"
      "cnt did_fail (?ws[k := w']) = cnt did_fail ?ws"
      "cnt live (?ws[k := w']) = cnt live ?ws" by simp_all
    from cnt_less_length [of k "workers s" past_total, OF True p(1)] len b1 have "unat (totalCount s) < 2 ^ 63" by simp
    then have "unat (totalCount s + 1) = unat (totalCount s) + 1" by (rule unat_incr)
    with c b1 b2 b3 b4 b5 show ?thesis
      unfolding eq E_TotalAdd inv_B_def apply_effect_def by simp
  next
    case E_FailedAdd
    with eff have p: "\<not> did_fail ?w" "did_fail w'"
      and o: "past_total w' = past_total ?w" "live w' = live ?w"
      by simp_all
    with cp cf cl have c: "cnt did_fail (?ws[k := w']) = cnt did_fail ?ws + 1"
      "cnt past_total (?ws[k := w']) = cnt past_total ?ws"
      "cnt live (?ws[k := w']) = cnt live ?ws" by simp_all
    from cnt_less_length [of k "workers s" did_fail, OF True p(1)] len b2 have "unat (failedCount s) < 2 ^ 63" by simp
    then have "unat (failedCount s + 1) = unat (failedCount s) + 1" by (rule unat_incr)
    with c b1 b2 b3 b4 b5 show ?thesis
      unfolding eq E_FailedAdd inv_B_def apply_effect_def by (auto simp: le_Suc_eq)
  next
    case E_WgDone
    with eff have p: "live ?w" "\<not> live w'"
      and o: "past_total w' = past_total ?w" "did_fail w' = did_fail ?w"
      by simp_all
    with cp cf cl have c: "cnt live (?ws[k := w']) + 1 = cnt live ?ws"
      "cnt past_total (?ws[k := w']) = cnt past_total ?ws"
      "cnt did_fail (?ws[k := w']) = cnt did_fail ?ws" by simp_all
    with b1 b2 b3 b4 b5 show ?thesis
      unfolding eq E_WgDone inv_B_def apply_effect_def by auto
  qed
next
  case False
  with B show ?thesis by (simp add: worker_step_skip)
qed

lemma inv_B_main:
  assumes A: "inv_A cfg s" and B: "inv_B s"
  shows "inv_B (listCommand_step cfg clients b s)"
proof (cases "mpc s = M_Select \<and> tick_pending s \<and> \<not> (ctx_done s \<and> b)")
  case True
  then have eq: "listCommand_step cfg clients b s = launch clients s"
    by (auto simp: listCommand_step_eq)
  show ?thesis
  proof (cases "clients = []")
    case True
    with B show ?thesis unfolding eq by (simp add: launch_empty inv_B_def)
  next
    case False
    from True have sel: "mpc s = M_Select" by simp
    have n: "\<not> past_total (new_worker k c)" "\<not> did_fail (new_worker k c)" "live (new_worker k c)"
      for k c
      by (simp_all add: past_total_def did_fail_def live_def new_worker_def)
    from B show ?thesis
      unfolding eq launch_ok [OF A sel False] inv_B_def
      by (auto simp: cnt_snoc n)
  qed
next
  case False
  note cnt_fail_le_total [of "workers s"] cnt_le_length [of past_total "workers s"]
  with B False show ?thesis
    by (cases "mpc s") (auto simp: listCommand_step_eq inv_B_def once_Do_cancel_frame)
qed

lemma inv_B_step:
  "inv_A cfg s \<Longrightarrow> inv_W cfg s \<Longrightarrow> inv_B s \<Longrightarrow> inv_B (step cfg clients s e)"
  by (cases e)
    (simp_all add: inv_B_main inv_B_worker,
     simp_all add: inv_B_def ticker_fire_frame signal_arrive_frame handler_step_frame)

lemma inv_B_run: "inv_B (run cfg clients sched)"
proof (induction sched rule: rev_induct)
  case Nil
  show ?case by (simp add: run_Nil inv_B_def init_def cnt_Nil)
next
  case (snoc e sched)
  then show ?case unfolding run_snoc by (rule inv_B_step [OF inv_A_run inv_W_run])
qed

lemma no_tick_summary:
  "summary (run zero_duration_config [7] sched_no_tick) =
     Some \<lparr>s_failed = 0, s_total = 0, s_rate = NaN\<rparr>"
  by (simp add: zero_duration_config_def example_config_def sched_no_tick_def eval_defs)

lemma one_failure_summary:
  "summary (run example_config [7] sched_one_failure) =
     Some \<lparr>s_failed = 1, s_total = 1, s_rate = Fin 100\<rparr>"
  by (simp add: example_config_def sched_one_failure_def error_response_def eval_defs)

lemma one_failure_counts:
  "failedCount (run example_config [7] sched_one_failure) = 1"
  "totalCount (run example_config [7] sched_one_failure) = 1"
  by (simp_all add: example_config_def sched_one_failure_def error_response_def eval_defs)

text \<open>The expression of line 124 at zero counts: 0/0 is NaN, and NaN*100 is NaN.\<close>

lemma failure_rate_zero: "failure_rate 0 0 = NaN"
  by (simp add: failure_rate_def float64_of_uint64_def)

subsection \<open>The return value, the wait and short durations\<close>

lemma worker_step_wg: "wg s = 0 \<Longrightarrow> wg (worker_step cfg k r s) = 0"
  by (simp add: worker_step_def apply_effect_def split: prod.split effect.split)

lemma inv_R_main:
  assumes "inv_R clients s"
  shows "inv_R clients (listCommand_step cfg clients b s)"
proof (cases "mpc s = M_Select \<and> tick_pending s \<and> \<not> (ctx_done s \<and> b)")
  case True
  then have eq: "listCommand_step cfg clients b s = launch clients s"
    by (auto simp: listCommand_step_eq)
  from assms True show ?thesis
    unfolding eq by (auto simp: inv_R_def launch_def Let_def)
next
  case False
  with assms show ?thesis
    by (cases "mpc s") (auto simp: listCommand_step_eq inv_R_def once_Do_cancel_frame)
qed

lemma inv_R_step: "inv_R clients s \<Longrightarrow> inv_R clients (step cfg clients s e)"
  by (cases e)
    (simp_all add: inv_R_main,
     simp_all add: inv_R_def ticker_fire_frame signal_arrive_frame handler_step_frame
       worker_step_frame worker_step_Nil worker_step_wg)

lemma inv_R_run: "inv_R clients (run cfg clients sched)"
  by (induction sched rule: rev_induct)
    (simp_all add: run_Nil run_snoc inv_R_step, simp add: inv_R_def init_def)

text \<open>
  When the loop ends by its condition, \<open>wg.Wait()\<close> has returned before the deferred
  summary runs: every launched worker has called \<open>wg.Done()\<close>.
\<close>

lemma duration_exit_waits:
  assumes "mpc (run cfg clients sched) = M_OnceDo ByDuration"
  shows "wg (run cfg clients sched) = 0"
    and "\<forall>w \<in> set (workers (run cfg clients sched)). wpc w = W_Exited"
proof -
  from inv_R_run [of clients cfg sched] assms
  show z: "wg (run cfg clients sched) = 0" by (simp add: inv_R_def)
  from inv_B_run [of cfg clients sched] z
  have "cnt live (workers (run cfg clients sched)) = 0" by (simp add: inv_B_def)
  then show "\<forall>w \<in> set (workers (run cfg clients sched)). wpc w = W_Exited"
    by (auto simp: cnt_def live_def filter_empty_conv)
qed

lemma few_workers:
  assumes "duration cfg < interval cfg"
  shows "length (workers (run cfg clients sched)) \<le> 1"
proof (rule ccontr)
  let ?l = "int (length (workers (run cfg clients sched)))"
  assume "\<not> length (workers (run cfg clients sched)) \<le> 1"
  then have two: "1 \<le> ?l - 1" and ne: "workers (run cfg clients sched) \<noteq> []" by auto
  from inv_A_run [of cfg clients sched] ne
  have lt: "(?l - 1) * interval cfg < duration cfg" by (simp add: inv_A_def)
  from inv_A_pos [OF inv_A_run [of cfg clients sched]] ne
  have pos: "0 < interval cfg" by simp
  from two pos have "1 * interval cfg \<le> (?l - 1) * interval cfg"
    by (intro mult_right_mono) simp_all
  with lt assms show False by simp
qed

lemma no_workers_nonpos:
  assumes "duration cfg \<le> 0"
  shows "workers (run cfg clients sched) = []"
proof (rule ccontr)
  let ?l = "int (length (workers (run cfg clients sched)))"
  assume ne: "workers (run cfg clients sched) \<noteq> []"
  then have "0 \<le> ?l - 1" by (cases "workers (run cfg clients sched)") simp_all
  moreover from inv_A_pos [OF inv_A_run [of cfg clients sched]] ne
  have "0 < interval cfg" by simp
  ultimately have "0 \<le> (?l - 1) * interval cfg" by simp
  moreover from inv_A_run [of cfg clients sched] ne
  have "(?l - 1) * interval cfg < duration cfg" by (simp add: inv_A_def)
  ultimately show False using assms by simp
qed

lemma summary_total_le:
  "summary (run cfg clients sched) = Some x \<Longrightarrow>
   unat (s_total x) \<le> length (workers (run cfg clients sched)) \<and>
   unat (s_failed x) \<le> unat (s_total x)"
  using inv_B_run [of cfg clients sched] by (simp add: inv_B_def)

lemma short_config_vals:
  "duration short_config = 100000000" "interval short_config = 1000000000"
  by (simp_all add: short_config_def example_config_def duration_def interval_def)

lemma short_run_workers: "length (workers (run short_config [7] sched_short_run)) = 1"
  by (simp add: short_config_def example_config_def sched_short_run_def ok_response_def eval_defs)

lemma short_run_summary:
  "summary (run short_config [7] sched_short_run) =
     Some \<lparr>s_failed = 0, s_total = 1, s_rate = Fin 0\<rparr>"
  by (simp add: short_config_def example_config_def sched_short_run_def ok_response_def eval_defs)

lemma short_run_cancel: "cancel_calls (run short_config [7] sched_short_run) = 0"
  by (simp add: short_config_def example_config_def sched_short_run_def ok_response_def eval_defs)

lemma zero_duration_vals:
  "duration zero_duration_config = 0" "interval zero_duration_config = 1000000000"
  by (simp_all add: zero_duration_config_def example_config_def duration_def interval_def)


lemma example_vals: "interval example_config = 1000000000" "duration example_config = 60000000000"
  by (simp_all add: example_config_def interval_def duration_def)








lemma short_run_returns:
  "mpc (run short_config [7] (sched_short_run @ [MainStep False])) = M_Returned None"
  by (simp add: short_config_def example_config_def sched_short_run_def ok_response_def eval_defs)

lemma cancel_in_flight_state:
  "summary (run example_config [7] sched_cancel_in_flight) =
     Some \<lparr>s_failed = 0, s_total = 1, s_rate = Fin 0\<rparr>"
  "wg (run example_config [7] sched_cancel_in_flight) = 1"
  "wpc (workers (run example_config [7] sched_cancel_in_flight) ! 0) = W_Stream"
  "mpc (run example_config [7] sched_cancel_in_flight) = M_OnceDo ByCancel"
  by (simp_all add: example_config_def sched_cancel_in_flight_def ok_response_def eval_defs)

lemma cancel_in_flight_after:
  "failedCount (run example_config [7]
     (sched_cancel_in_flight @
        [WorkerStep 0 error_response, WorkerStep 0 error_response, WorkerStep 0 error_response])) = 1"
  by (simp add: example_config_def sched_cancel_in_flight_def ok_response_def
      error_response_def eval_defs)

lemma sum_list_cnt:
  "(\<And>w. w \<in> set ws \<Longrightarrow> f w = (if P w then 1 else 0)) \<Longrightarrow> sum_list (map f ws) = cnt P ws"
proof (induction ws)
  case Nil
  show ?case by (simp add: cnt_def)
next
  case (Cons w ws)
  then have "sum_list (map f ws) = cnt P ws" by simp
  moreover from Cons.prems have "f w = (if P w then 1 else 0)" by simp
  ultimately show ?case by (simp add: cnt_def)
qed

lemma winv_counts:
  assumes "winv c w"
  shows "count_list (wlog w) A_TotalAdd = (if past_total w then 1 else 0)"
    and "count_list (wlog w) A_FailedAdd = (if did_fail w then 1 else 0)"
    and "count_list (wlog w) A_Stream \<le> 1"
    and "A_Stream \<in> set (wlog w) \<longrightarrow> before A_TotalAdd A_Stream (wlog w)"
    and "A_FailedAdd \<in> set (wlog w) \<longrightarrow>
           before A_Stream A_FailedAdd (wlog w) \<and> err (wresp w) \<noteq> None"
    and "wpc w = W_Exited \<longrightarrow>
           count_list (wlog w) A_Stream = 1 \<and> A_Return (err (wresp w)) \<in> set (wlog w)"
proof -
  from assms obtain t where
    lg: "wlog w = expected_log c t w" and
    er: "wpc w = W_Csv \<longrightarrow> err (wresp w) = None"
    by (auto simp: winv_def)
  note defs = expected_log_def log_request_def log_body_def log_result_def before_def
    past_total_def did_fail_def
  show "count_list (wlog w) A_TotalAdd = (if past_total w then 1 else 0)"
    unfolding lg by (cases "wpc w") (auto simp add: defs split: option.splits)
  show "count_list (wlog w) A_FailedAdd = (if did_fail w then 1 else 0)"
    unfolding lg using er by (cases "wpc w") (auto simp add: defs split: option.splits)
  show "count_list (wlog w) A_Stream \<le> 1"
    unfolding lg by (cases "wpc w") (auto simp add: defs split: option.splits)
  show "A_Stream \<in> set (wlog w) \<longrightarrow> before A_TotalAdd A_Stream (wlog w)"
    unfolding lg by (cases "wpc w") (auto simp add: defs split: option.splits)
  show "A_FailedAdd \<in> set (wlog w) \<longrightarrow>
           before A_Stream A_FailedAdd (wlog w) \<and> err (wresp w) \<noteq> None"
    unfolding lg using er by (cases "wpc w") (auto simp add: defs split: option.splits)
  show "wpc w = W_Exited \<longrightarrow>
           count_list (wlog w) A_Stream = 1 \<and> A_Return (err (wresp w)) \<in> set (wlog w)"
    unfolding lg by (cases "wpc w") (auto simp add: defs split: option.splits)
qed

lemma one_failure_workers:
  "workers (run example_config [7] sched_one_failure) =
     [\<lparr>wpc = W_Exited, wtick = 0, wclient = 7, wstart = 1000000000,
       wresp = \<lparr>rc = None, err = Some ''timeout''\<rparr>, wlatency = 0,
       wlog = [A_TotalAdd, A_Now 1000000000, A_Stream, A_FailedAdd,
               A_Return (Some ''timeout''), A_WgDone]\<rparr>]"
  by (simp add: example_config_def sched_one_failure_def error_response_def eval_defs)

subsection \<open>The CSV sink\<close>

lemma listOnce_step_csv:
  assumes "winv c w" "listOnce_step c t r w = (w', e)"
  shows "wrote c w' \<longleftrightarrow> wrote c w \<or> (\<exists>l. e = E_CsvWrite l)"
    and "e = E_CsvWrite l \<Longrightarrow> c \<and> \<not> wrote c w \<and> l = wlatency w'"
    and "wrote c w \<Longrightarrow> wlatency w' = wlatency w"
proof -
  from assms(1) have er: "wpc w = W_Csv \<longrightarrow> err (wresp w) = None"
    by (auto simp: winv_def)
  have "(wrote c w' \<longleftrightarrow> wrote c w \<or> (\<exists>l. e = E_CsvWrite l)) \<and>
    (e = E_CsvWrite l \<longrightarrow> c \<and> \<not> wrote c w \<and> l = wlatency w') \<and>
    (wrote c w \<longrightarrow> wlatency w' = wlatency w)"
    using assms(2) er
    by (cases "wpc w")
      (auto simp: listOnce_step.simps did_def Let_def wrote_def split: if_splits option.splits)
  then show "wrote c w' \<longleftrightarrow> wrote c w \<or> (\<exists>l. e = E_CsvWrite l)"
    and "e = E_CsvWrite l \<Longrightarrow> c \<and> \<not> wrote c w \<and> l = wlatency w'"
    and "wrote c w \<Longrightarrow> wlatency w' = wlatency w"
    by blast+
qed

lemma update_keeps_rows:
  assumes k: "k < length ws"
    and keep: "P (ws ! k) \<Longrightarrow> P w' \<and> f w' = f (ws ! k)"
    and x: "\<exists>w \<in> set ws. P w \<and> f w = l"
  shows "\<exists>w \<in> set (ws[k := w']). P w \<and> f w = l"
proof -
  from x obtain j where j: "j < length ws" and p: "P (ws ! j)" and l: "f (ws ! j) = l"
    by (auto simp: in_set_conv_nth)
  show ?thesis
  proof (cases "j = k")
    case True
    with p keep have "P w'" "f w' = f (ws ! k)" by simp_all
    moreover from k have "w' \<in> set (ws[k := w'])" by (rule set_update_memI)
    ultimately show ?thesis using l True by auto
  next
    case False
    with j have "ws[k := w'] ! j = ws ! j" "j < length (ws[k := w'])" by simp_all
    then have "ws ! j \<in> set (ws[k := w'])" by (metis nth_mem)
    with p l show ?thesis by auto
  qed
qed

lemma inv_S_worker:
  assumes W: "inv_W cfg s" and S: "inv_S cfg s"
  shows "inv_S cfg (worker_step cfg k r s)"
proof (cases "k < length (workers s)")
  case True
  let ?c = "csvWriter_set cfg"
  let ?w = "workers s ! k"
  let ?ws = "workers s"
  obtain w' e where st: "listOnce_step ?c (now s) r ?w = (w', e)"
    by (cases "listOnce_step ?c (now s) r ?w")
  have eq: "worker_step cfg k r s = apply_effect e (s\<lparr>workers := ?ws[k := w']\<rparr>)"
    using True st by (simp add: worker_step_def)
  from True W have wi: "winv ?c ?w" by (simp add: inv_W_def)
  note eff = listOnce_step_csv [OF wi st]
  have cw: "cnt (wrote ?c) (?ws[k := w']) + (if wrote ?c ?w then 1 else 0) =
      cnt (wrote ?c) ?ws + (if wrote ?c w' then 1 else 0)"
    by (rule cnt_update [OF True])
  from S have s1: "\<not> ?c \<longrightarrow> csv s = []"
    and s2: "length (csv s) = cnt (wrote ?c) ?ws"
    and s3: "\<forall>l \<in> set (csv s). \<exists>w \<in> set ?ws. wrote ?c w \<and> wlatency w = l"
    by (simp_all add: inv_S_def)
  have keep: "\<forall>l \<in> set (csv s). \<exists>w \<in> set (?ws[k := w']). wrote ?c w \<and> wlatency w = l"
  proof
    fix l
    assume "l \<in> set (csv s)"
    with s3 have ex: "\<exists>w \<in> set ?ws. wrote ?c w \<and> wlatency w = l" by simp
    have kp: "wrote ?c ?w \<Longrightarrow> wrote ?c w' \<and> wlatency w' = wlatency ?w"
      using eff(1,3) by simp
    from update_keeps_rows [of k ?ws "wrote ?c" w' wlatency l, OF True kp ex]
    show "\<exists>w \<in> set (?ws[k := w']). wrote ?c w \<and> wlatency w = l" .
  qed
  show ?thesis
  proof (cases "\<exists>l. e = E_CsvWrite l")
    case True
    then obtain l where e: "e = E_CsvWrite l" by blast
    from eff(2) [OF e] have c: "?c" and nw: "\<not> wrote ?c ?w" and l: "l = wlatency w'" by blast+
    from eff(1) e have w': "wrote ?c w'" by simp
    from cw nw w' have n: "cnt (wrote ?c) (?ws[k := w']) = cnt (wrote ?c) ?ws + 1" by simp
    from \<open>k < length ?ws\<close> have mem: "w' \<in> set (?ws[k := w'])" by (rule set_update_memI)
    from c s2 n keep w' l mem show ?thesis
      unfolding eq e inv_S_def apply_effect_def by auto
  next
    case False
    with eff(1) have "wrote ?c w' = wrote ?c ?w" by simp
    with cw have n: "cnt (wrote ?c) (?ws[k := w']) = cnt (wrote ?c) ?ws" by simp
    from False have "csv (apply_effect e (s\<lparr>workers := ?ws[k := w']\<rparr>)) = csv s"
      "workers (apply_effect e (s\<lparr>workers := ?ws[k := w']\<rparr>)) = ?ws[k := w']"
      by (cases e; simp add: apply_effect_def)+
    with s1 s2 n keep show ?thesis
      unfolding eq inv_S_def by simp
  qed
next
  case False
  with S show ?thesis by (simp add: worker_step_skip)
qed

lemma inv_S_main:
  assumes A: "inv_A cfg s" and S: "inv_S cfg s"
  shows "inv_S cfg (listCommand_step cfg clients b s)"
proof (cases "mpc s = M_Select \<and> tick_pending s \<and> \<not> (ctx_done s \<and> b)")
  case True
  then have eq: "listCommand_step cfg clients b s = launch clients s"
    by (auto simp: listCommand_step_eq)
  show ?thesis
  proof (cases "clients = []")
    case True
    with S show ?thesis unfolding eq by (simp add: launch_empty inv_S_def)
  next
    case False
    from True have sel: "mpc s = M_Select" by simp
    have n: "\<not> wrote c (new_worker k cl)" for c k cl
      by (simp add: wrote_def new_worker_def)
    from S show ?thesis
      unfolding eq launch_ok [OF A sel False] inv_S_def
      by (auto simp: cnt_snoc n)
  qed
next
  case False
  with S show ?thesis
    by (cases "mpc s") (auto simp: listCommand_step_eq inv_S_def once_Do_cancel_frame)
qed

lemma inv_S_step:
  "inv_A cfg s \<Longrightarrow> inv_W cfg s \<Longrightarrow> inv_S cfg s \<Longrightarrow> inv_S cfg (step cfg clients s e)"
  by (cases e)
    (simp_all add: inv_S_main inv_S_worker,
     simp_all add: inv_S_def ticker_fire_frame signal_arrive_frame handler_step_frame)

lemma inv_S_run: "inv_S cfg (run cfg clients sched)"
proof (induction sched rule: rev_induct)
  case Nil
  show ?case by (simp add: run_Nil inv_S_def init_def cnt_Nil)
next
  case (snoc e sched)
  then show ?case unfolding run_snoc by (rule inv_S_step [OF inv_A_run inv_W_run])
qed

lemma csv_run_workers:
  "workers (run csv_config [7] sched_csv) =
     [\<lparr>wpc = W_Exited, wtick = 0, wclient = 7, wstart = 1000000000,
       wresp = \<lparr>rc = Some (Body None), err = None\<rparr>, wlatency = 250000000,
       wlog = [A_TotalAdd, A_Now 1000000000, A_Stream, A_Drain None, A_Close,
               A_Since 1250000000 250000000, A_CsvWrite 250000000, A_Return None, A_WgDone]\<rparr>]"
  by (simp add: csv_config_def example_config_def sched_csv_def ok_response_def eval_defs)

lemma csv_run_rows: "csv (run csv_config [7] sched_csv) = [250000000]"
  by (simp add: csv_config_def example_config_def sched_csv_def ok_response_def eval_defs)

lemma truncated_run_workers:
  "workers (run csv_config [7] sched_truncated) =
     [\<lparr>wpc = W_Exited, wtick = 0, wclient = 7, wstart = 1000000000,
       wresp = \<lparr>rc = Some (Body (Some ''unexpected EOF'')), err = None\<rparr>,
       wlatency = 250000000,
       wlog = [A_TotalAdd, A_Now 1000000000, A_Stream, A_Drain (Some ''unexpected EOF''),
               A_Close, A_Since 1250000000 250000000, A_CsvWrite 250000000, A_Return None,
               A_WgDone]\<rparr>]"
  by (simp add: csv_config_def example_config_def sched_truncated_def truncated_response_def
      eval_defs)

lemma truncated_run_state:
  "csv (run csv_config [7] sched_truncated) = [250000000]"
  "totalCount (run csv_config [7] sched_truncated) = 1"
  "failedCount (run csv_config [7] sched_truncated) = 0"
  by (simp_all add: csv_config_def example_config_def sched_truncated_def
      truncated_response_def eval_defs)

lemma winv_returned:
  assumes "winv c w" "wpc w = W_WgDone \<or> wpc w = W_Exited"
  shows "(\<forall>body. rc (wresp w) = Some body \<longrightarrow>
           count_list (wlog w) (A_Drain (read_error body)) = 1 \<and>
           count_list (wlog w) A_Close = 1 \<and>
           before A_Stream (A_Drain (read_error body)) (wlog w) \<and>
           before (A_Drain (read_error body)) A_Close (wlog w) \<and>
           before A_Close (A_Return (err (wresp w))) (wlog w))"
    and "rc (wresp w) = None \<longrightarrow> (\<forall>x. A_Drain x \<notin> set (wlog w)) \<and> A_Close \<notin> set (wlog w)"
    and "err (wresp w) = None \<longrightarrow>
           (\<exists>t1. take 3 (wlog w) = [A_TotalAdd, A_Now (wstart w), A_Stream] \<and>
                 before A_Stream (A_Since t1 (wlatency w)) (wlog w) \<and>
                 (rc (wresp w) \<noteq> None \<longrightarrow> before A_Close (A_Since t1 (wlatency w)) (wlog w)) \<and>
                 wlatency w = time_Since (wstart w) t1 \<and>
                 (c \<longrightarrow> before (A_Since t1 (wlatency w)) (A_CsvWrite (wlatency w)) (wlog w) \<and>
                        before (A_CsvWrite (wlatency w)) (A_Return None) (wlog w)) \<and>
                 (\<not> c \<longrightarrow> (\<forall>l. A_CsvWrite l \<notin> set (wlog w))))"
    and "err (wresp w) \<noteq> None \<longrightarrow>
           (\<forall>l. A_CsvWrite l \<notin> set (wlog w)) \<and> (\<forall>t l. A_Since t l \<notin> set (wlog w))"
proof -
  from assms obtain t where
    lg: "wlog w = expected_log c t w" and
    lat: "err (wresp w) = None \<longrightarrow> wlatency w = time_Since (wstart w) t"
    by (auto simp: winv_def)
  note defs = expected_log_def log_request_def log_body_def log_result_def before_def
  show "(\<forall>body. rc (wresp w) = Some body \<longrightarrow>
           count_list (wlog w) (A_Drain (read_error body)) = 1 \<and>
           count_list (wlog w) A_Close = 1 \<and>
           before A_Stream (A_Drain (read_error body)) (wlog w) \<and>
           before (A_Drain (read_error body)) A_Close (wlog w) \<and>
           before A_Close (A_Return (err (wresp w))) (wlog w))"
    unfolding lg using assms(2) by (auto simp add: defs split: if_splits option.splits)
  show "rc (wresp w) = None \<longrightarrow> (\<forall>x. A_Drain x \<notin> set (wlog w)) \<and> A_Close \<notin> set (wlog w)"
    unfolding lg using assms(2) by (auto simp add: defs split: if_splits option.splits)
  show "err (wresp w) \<noteq> None \<longrightarrow>
           (\<forall>l. A_CsvWrite l \<notin> set (wlog w)) \<and> (\<forall>t l. A_Since t l \<notin> set (wlog w))"
    unfolding lg using assms(2) by (auto simp add: defs split: if_splits option.splits)
  show "err (wresp w) = None \<longrightarrow>
           (\<exists>t1. take 3 (wlog w) = [A_TotalAdd, A_Now (wstart w), A_Stream] \<and>
                 before A_Stream (A_Since t1 (wlatency w)) (wlog w) \<and>
                 (rc (wresp w) \<noteq> None \<longrightarrow> before A_Close (A_Since t1 (wlatency w)) (wlog w)) \<and>
                 wlatency w = time_Since (wstart w) t1 \<and>
                 (c \<longrightarrow> before (A_Since t1 (wlatency w)) (A_CsvWrite (wlatency w)) (wlog w) \<and>
                        before (A_CsvWrite (wlatency w)) (A_Return None) (wlog w)) \<and>
                 (\<not> c \<longrightarrow> (\<forall>l. A_CsvWrite l \<notin> set (wlog w))))"
  proof
    assume e: "err (wresp w) = None"
    with lat have l: "wlatency w = time_Since (wstart w) t" by simp
    show "\<exists>t1. take 3 (wlog w) = [A_TotalAdd, A_Now (wstart w), A_Stream] \<and>
                 before A_Stream (A_Since t1 (wlatency w)) (wlog w) \<and>
                 (rc (wresp w) \<noteq> None \<longrightarrow> before A_Close (A_Since t1 (wlatency w)) (wlog w)) \<and>
                 wlatency w = time_Since (wstart w) t1 \<and>
                 (c \<longrightarrow> before (A_Since t1 (wlatency w)) (A_CsvWrite (wlatency w)) (wlog w) \<and>
                        before (A_CsvWrite (wlatency w)) (A_Return None) (wlog w)) \<and>
                 (\<not> c \<longrightarrow> (\<forall>l. A_CsvWrite l \<notin> set (wlog w)))"
      unfolding lg using assms(2) e l
      by (intro exI [of _ t]) (auto simp add: defs numeral_3_eq_3 split: if_splits option.splits)
  qed
qed

subsection \<open>Cancellation and the signal goroutine\<close>

lemma inv_H_once: "inv_H s \<Longrightarrow> mpc s \<noteq> M_Setup \<Longrightarrow> inv_H (once_Do_cancel s)"
  by (simp add: inv_H_def once_Do_cancel_def)

lemma inv_H_handler: "inv_H s \<Longrightarrow> inv_H (handler_step b s)"
  by (auto simp: inv_H_def handler_step_def once_Do_cancel_def)

lemma inv_H_main: "inv_H s \<Longrightarrow> inv_H (listCommand_step cfg clients b s)"
  by (cases "mpc s")
    (auto simp: inv_H_def listCommand_step_eq launch_def Let_def once_Do_cancel_def)

lemma inv_H_step: "inv_H s \<Longrightarrow> inv_H (step cfg clients s e)"
  by (cases e)
    (simp_all add: inv_H_main inv_H_handler,
     simp_all add: inv_H_def ticker_fire_frame signal_arrive_frame worker_step_frame)

lemma inv_H_run: "inv_H (run cfg clients sched)"
  by (induction sched rule: rev_induct)
    (simp_all add: run_Nil run_snoc inv_H_step, simp add: inv_H_def init_def)

lemma listCommand_step_cancelled:
  assumes "cancelled s"
  shows "cancelled (listCommand_step cfg clients b s)"
    and "handler (listCommand_step cfg clients b s) = handler s"
    and "sig_pending (listCommand_step cfg clients b s) = sig_pending s"
  using assms
  by (cases "mpc s";
      auto simp: cancelled_def listCommand_step_eq launch_def Let_def once_Do_cancel_def)+

lemma step_cancelled:
  assumes "cancelled s"
  shows "cancelled (step cfg clients s e)"
  using assms
  by (cases e)
    (simp_all add: listCommand_step_cancelled,
     auto simp: cancelled_def ticker_fire_frame signal_arrive_frame worker_step_frame
       handler_step_def once_Do_cancel_def)

lemma step_exited:
  assumes "cancelled s" "handler s = H_Exited"
  shows "handler (step cfg clients s e) = H_Exited"
  using assms
  by (cases e)
    (simp_all add: listCommand_step_cancelled ticker_fire_frame signal_arrive_frame
       worker_step_frame handler_step_def)

lemma step_other:
  assumes "cancelled s" "\<not> is_HandlerStep e" "e \<noteq> SignalArrive"
  shows "handler (step cfg clients s e) = handler s"
    and "sig_pending (step cfg clients s e) = sig_pending s"
  using assms
  by (cases e; simp add: listCommand_step_cancelled ticker_fire_frame worker_step_frame)+

lemma handler_step_cancelled:
  assumes "cancelled s" "handler s = H_Running"
  shows "handler (handler_step b s) = H_Exited \<or>
         (sig_pending s \<and> \<not> sig_pending (handler_step b s))"
  using assms by (auto simp: cancelled_def handler_step_def once_Do_cancel_def)

lemma handler_exits:
  assumes "cancelled s"
    and "handler s = H_Exited \<or>
         count_list rest SignalArrive + (if sig_pending s then 1 else 0) < handler_turns rest"
  shows "handler (foldl (step cfg clients) s rest) = H_Exited"
  using assms
proof (induction rest arbitrary: s)
  case Nil
  then show ?case by (simp add: handler_turns_def)
next
  case (Cons e rest)
  let ?s' = "step cfg clients s e"
  from Cons.prems(1) have c': "cancelled ?s'" by (rule step_cancelled)
  have "handler ?s' = H_Exited \<or>
      count_list rest SignalArrive + (if sig_pending ?s' then 1 else 0) < handler_turns rest"
  proof (cases "handler s = H_Exited")
    case True
    with Cons.prems(1) show ?thesis by (simp add: step_exited)
  next
    case False
    with Cons.prems(1) have run: "handler s = H_Running"
      by (cases "handler s") (simp_all add: cancelled_def)
    from False Cons.prems(2)
    have m: "count_list (e # rest) SignalArrive + (if sig_pending s then 1 else 0)
        < handler_turns (e # rest)" by simp
    show ?thesis
    proof (cases "is_HandlerStep e")
      case True
      then obtain b where e: "e = HandlerStep b" by (cases e) simp_all
      from handler_step_cancelled [OF Cons.prems(1) run, of b] m show ?thesis
        unfolding e by (auto simp: handler_turns_def)
    next
      case nh: False
      show ?thesis
      proof (cases "e = SignalArrive")
        case True
        with m show ?thesis by (auto simp: handler_turns_def)
      next
        case False
        from step_other [OF Cons.prems(1) nh False, of cfg clients] m nh False
        show ?thesis by (auto simp: handler_turns_def)
      qed
    qed
  qed
  from Cons.IH [OF c' this] show ?case by simp
qed

lemma signals_state:
  "ctx_done (run example_config [7] sched_signals)"
  "sig_pending (run example_config [7] sched_signals)"
  "cancel_calls (run example_config [7] sched_signals) = 1"
  "handler (run example_config [7] sched_signals) = H_Running"
  by (simp_all add: example_config_def sched_signals_def eval_defs)

lemma signals_after:
  "cancel_calls (run example_config [7]
     (sched_signals @ [HandlerStep False, HandlerStep False])) = 1"
  by (simp add: example_config_def sched_signals_def eval_defs)

subsection \<open>Progress\<close>

lemma inv_T_main: "inv_T s \<Longrightarrow> inv_T (listCommand_step cfg clients b s)"
  by (cases "mpc s") (auto simp: inv_T_def listCommand_step_eq launch_def Let_def once_Do_cancel_def)

lemma inv_T_step: "inv_T s \<Longrightarrow> inv_T (step cfg clients s e)"
  by (cases e)
    (simp_all add: inv_T_main,
     simp_all add: inv_T_def ticker_fire_frame signal_arrive_frame handler_step_frame
       worker_step_frame)

lemma inv_T_run: "inv_T (run cfg clients sched)"
  by (induction sched rule: rev_induct)
    (simp_all add: run_Nil run_snoc inv_T_step, simp add: inv_T_def init_def)

lemma run_append:
  "run cfg clients (sched @ rest) = foldl (step cfg clients) (run cfg clients sched) rest"
  by (simp add: run_def)

lemma listOnce_step_rank:
  "wpc w \<noteq> W_Exited \<Longrightarrow> rank (wpc (fst (listOnce_step c t r w))) < rank (wpc w)"
  by (cases "wpc w") (simp_all add: listOnce_step.simps did_def Let_def split: option.split)

lemma listOnce_step_exited:
  "wpc w = W_Exited \<Longrightarrow> listOnce_step c t r w = (w, E_None)"
  by (simp add: listOnce_step.simps)

lemma worker_step_exited:
  "k < length (workers s) \<Longrightarrow> wpc (workers s ! k) = W_Exited \<Longrightarrow> worker_step cfg k r s = s"
  by (simp add: worker_step_def listOnce_step_exited apply_effect_def)

lemma worker_step_others:
  "j \<noteq> k \<Longrightarrow> workers (worker_step cfg k r s) ! j = workers s ! j"
  by (cases "k < length (workers s)") (simp_all add: worker_step_workers worker_step_skip)

lemma worker_step_rank:
  assumes "k < length (workers s)" "wpc (workers s ! k) \<noteq> W_Exited"
  shows "rank (wpc (workers (worker_step cfg k r s) ! k)) < rank (wpc (workers s ! k))"
  using assms by (simp add: worker_step_workers listOnce_step_rank)

text \<open>A worker that keeps being scheduled returns.\<close>

lemma finish_one:
  assumes "k < length (workers s)" "rank (wpc (workers s ! k)) \<le> n"
  shows "\<exists>rest. wpc (workers (foldl (step cfg clients) s rest) ! k) = W_Exited \<and>
           mpc (foldl (step cfg clients) s rest) = mpc s \<and>
           length (workers (foldl (step cfg clients) s rest)) = length (workers s) \<and>
           (\<forall>j. j \<noteq> k \<longrightarrow> workers (foldl (step cfg clients) s rest) ! j = workers s ! j)"
  using assms
proof (induction n arbitrary: s)
  case 0
  then have "wpc (workers s ! k) = W_Exited" by (cases "wpc (workers s ! k)") simp_all
  then show ?case by (intro exI [of _ "[]"]) simp
next
  case (Suc n)
  show ?case
  proof (cases "wpc (workers s ! k) = W_Exited")
    case True
    then show ?thesis by (intro exI [of _ "[]"]) simp
  next
    case False
    let ?s' = "worker_step cfg k \<lparr>rc = None, err = None\<rparr> s"
    from worker_step_rank [OF Suc.prems(1) False, of cfg "\<lparr>rc = None, err = None\<rparr>"] Suc.prems(2)
    have r: "rank (wpc (workers ?s' ! k)) \<le> n" by simp
    have l: "k < length (workers ?s')" using Suc.prems(1) by (simp add: worker_step_frame)
    from Suc.IH [OF l r] obtain rest where
      a: "wpc (workers (foldl (step cfg clients) ?s' rest) ! k) = W_Exited" and
      b: "mpc (foldl (step cfg clients) ?s' rest) = mpc ?s'" and
      c: "length (workers (foldl (step cfg clients) ?s' rest)) = length (workers ?s')" and
      d: "\<forall>j. j \<noteq> k \<longrightarrow> workers (foldl (step cfg clients) ?s' rest) ! j = workers ?s' ! j"
      by blast
    show ?thesis
      using a b c d
      by (intro exI [of _ "WorkerStep k \<lparr>rc = None, err = None\<rparr> # rest"])
        (simp add: worker_step_frame worker_step_others)
  qed
qed

lemma rank_le: "rank pc \<le> 8"
  by (cases pc) simp_all

lemma finish_all:
  assumes "m \<le> length (workers s)"
  shows "\<exists>rest. (\<forall>k < m. wpc (workers (foldl (step cfg clients) s rest) ! k) = W_Exited) \<and>
           mpc (foldl (step cfg clients) s rest) = mpc s \<and>
           length (workers (foldl (step cfg clients) s rest)) = length (workers s)"
  using assms
proof (induction m)
  case 0
  show ?case by (intro exI [of _ "[]"]) simp
next
  case (Suc m)
  then obtain r1 where
    a: "\<forall>k < m. wpc (workers (foldl (step cfg clients) s r1) ! k) = W_Exited" and
    b: "mpc (foldl (step cfg clients) s r1) = mpc s" and
    c: "length (workers (foldl (step cfg clients) s r1)) = length (workers s)"
    by auto
  let ?s1 = "foldl (step cfg clients) s r1"
  from Suc.prems c have "m < length (workers ?s1)" by simp
  from finish_one [OF this rank_le, of cfg clients] obtain r2 where
    a2: "wpc (workers (foldl (step cfg clients) ?s1 r2) ! m) = W_Exited" and
    b2: "mpc (foldl (step cfg clients) ?s1 r2) = mpc ?s1" and
    c2: "length (workers (foldl (step cfg clients) ?s1 r2)) = length (workers ?s1)" and
    d2: "\<forall>j. j \<noteq> m \<longrightarrow> workers (foldl (step cfg clients) ?s1 r2) ! j = workers ?s1 ! j"
    by blast
  show ?case
    using a b c a2 b2 c2 d2
    by (intro exI [of _ "r1 @ r2"]) (auto simp: less_Suc_eq)
qed

lemma cond_to_wait:
  assumes "mpc (run cfg clients sched) = M_Cond"
  shows "mpc (run cfg clients (sched @ [Advance (nat (duration cfg)), MainStep False])) = M_Wait"
proof -
  let ?s = "run cfg clients sched"
  let ?s1 = "?s\<lparr>now := now ?s + nat (duration cfg)\<rparr>"
  from inv_A_run [of cfg clients sched] have "start ?s \<le> now ?s" by (simp add: inv_A_def)
  then have "duration cfg \<le> int (now ?s + nat (duration cfg)) - int (start ?s)" by simp
  with duration_lt [of cfg] have "\<not> time_Since (start ?s1) (now ?s1) < duration cfg"
    by (simp add: time_Since_def maxInt64_def)
  with assms have "mpc (listCommand_step cfg clients False ?s1) = M_Wait"
    by (simp add: listCommand_step_eq)
  then show ?thesis by (simp add: run_append)
qed

lemma select_to_cond:
  assumes "clients \<noteq> []" "mpc (run cfg clients sched) = M_Select"
  shows "mpc (run cfg clients
           (sched @ [Advance (nat ((int (fired (run cfg clients sched)) + 1) * interval cfg)),
                     TickerFire, MainStep False])) = M_Cond"
proof -
  let ?s = "run cfg clients sched"
  let ?d = "nat ((int (fired ?s) + 1) * interval cfg)"
  let ?r1 = "sched @ [Advance ?d, TickerFire]"
  let ?s1 = "run cfg clients ?r1"
  from inv_A_run [of cfg clients sched] have st: "start ?s \<le> now ?s" by (simp add: inv_A_def)
  from inv_T_run [of cfg clients sched] assms(2) have on: "ticker_on ?s" by (simp add: inv_T_def)
  from inv_A_run [of cfg clients sched] assms(2) have pos: "0 < interval cfg"
    by (auto simp: inv_A_def)
  define x where "x = (int (fired ?s) + 1) * interval cfg"
  from pos have x0: "0 \<le> x" by (simp add: x_def)
  have fx: "int (fired ?s + 1) * interval cfg = x" by (simp add: x_def add.commute)
  have dx: "int (now ?s + nat x) = int (now ?s) + x" using x0 by simp
  have "x \<le> int (now ?s + nat x) - int (start ?s)" unfolding dx using st by simp
  then have en: "int (fired ?s + 1) * interval cfg \<le> int (now ?s + ?d) - int (start ?s)"
    unfolding fx x_def .
  have s1: "?s1 = ticker_fire cfg (?s\<lparr>now := now ?s + ?d\<rparr>)"
    by (simp add: run_append)
  from on en have tp: "tick_pending ?s1" unfolding s1 by (simp add: ticker_fire_def)
  from assms(2) have sel: "mpc ?s1 = M_Select" unfolding s1 by (simp add: ticker_fire_frame)
  from tp sel have "listCommand_step cfg clients False ?s1 = launch clients ?s1"
    by (simp add: listCommand_step_eq)
  moreover from launch_ok [OF inv_A_run sel assms(1)] have "mpc (launch clients ?s1) = M_Cond"
    by simp
  moreover have "run cfg clients (?r1 @ [MainStep False]) = listCommand_step cfg clients False ?s1"
    by (simp only: run_snoc step.simps)
  ultimately have "mpc (run cfg clients (?r1 @ [MainStep False])) = M_Cond"
    by (simp only:)
  then show ?thesis by simp
qed

lemma reach_past_loop:
  assumes "0 < interval cfg" "clients \<noteq> []"
  shows "\<exists>rest. past_loop (run cfg clients (sched @ rest))"
proof -
  let ?s = "run cfg clients sched"
  have from_cond: "\<exists>rest. past_loop (run cfg clients (sc @ rest))"
    if "mpc (run cfg clients sc) = M_Cond" for sc
    using cond_to_wait [OF that] by (intro exI [of _ "[Advance (nat (duration cfg)), MainStep False]"])
      (simp add: past_loop_def)
  have from_select: "\<exists>rest. past_loop (run cfg clients (sc @ rest))"
    if "mpc (run cfg clients sc) = M_Select" for sc
  proof -
    let ?r = "[Advance (nat ((int (fired (run cfg clients sc)) + 1) * interval cfg)),
                     TickerFire, MainStep False]"
    from from_cond [OF select_to_cond [OF assms(2) that]] obtain rest
      where "past_loop (run cfg clients ((sc @ ?r) @ rest))" by blast
    then show ?thesis by (intro exI [of _ "?r @ rest"]) simp
  qed
  have from_ticker: "\<exists>rest. past_loop (run cfg clients (sc @ rest))"
    if "mpc (run cfg clients sc) = M_NewTicker" for sc
  proof -
    from that assms(1) have "mpc (run cfg clients (sc @ [MainStep False])) = M_Cond"
      unfolding run_snoc by (simp add: listCommand_step_eq)
    from from_cond [OF this] obtain rest
      where "past_loop (run cfg clients ((sc @ [MainStep False]) @ rest))" by blast
    then show ?thesis by (intro exI [of _ "[MainStep False] @ rest"]) simp
  qed
  from inv_N_run [of cfg clients sched] assms have np: "\<not> panicking ?s" by (simp add: inv_N_def)
  from inv_R_run [of clients cfg sched] have nr: "\<forall>e. mpc ?s \<noteq> M_Returned (Some e)"
    by (simp add: inv_R_def)
  show ?thesis
  proof (cases "mpc ?s")
    case M_Setup
    then have "mpc (run cfg clients (sched @ [MainStep False])) = M_NewTicker"
      unfolding run_snoc by (simp add: listCommand_step_eq)
    from from_ticker [OF this] obtain rest
      where "past_loop (run cfg clients ((sched @ [MainStep False]) @ rest))" by blast
    then show ?thesis by (intro exI [of _ "[MainStep False] @ rest"]) simp
  next
    case M_NewTicker
    then show ?thesis by (rule from_ticker)
  next
    case M_Cond
    then show ?thesis by (rule from_cond)
  next
    case M_Select
    then show ?thesis by (rule from_select)
  next
    case M_Wait
    then show ?thesis by (intro exI [of _ "[]"]) (simp add: past_loop_def)
  next
    case (M_LoadFailed e)
    with np show ?thesis by (intro exI [of _ "[]"]) (simp add: past_loop_def panicking_def)
  next
    case (M_LoadTotal e fc)
    with np show ?thesis by (intro exI [of _ "[]"]) (simp add: past_loop_def panicking_def)
  next
    case (M_OnceDo e)
    with np show ?thesis by (intro exI [of _ "[]"]) (simp add: past_loop_def panicking_def)
  next
    case (M_Returned v)
    with nr show ?thesis by (intro exI [of _ "[]"]) (cases v; simp add: past_loop_def)
  next
    case M_Crashed
    with np show ?thesis by (simp add: panicking_def)
  qed
qed

lemma main4:
  assumes "past_loop s" "wg s = 0"
  shows "mpc (listCommand_step cfg clients b4 (listCommand_step cfg clients b3
           (listCommand_step cfg clients b2 (listCommand_step cfg clients b1 s)))) = M_Returned None"
  using assms
  by (cases "mpc s") (auto simp: past_loop_def listCommand_step_eq once_Do_cancel_frame)

text \<open>
  With a positive interval and a pool that is not empty, nothing in the program keeps
  \<open>listCommand\<close> from returning: every run has a continuation in which it returns nil.
\<close>

lemma can_return:
  assumes "0 < interval cfg" "clients \<noteq> []"
  shows "\<exists>rest. mpc (run cfg clients (sched @ rest)) = M_Returned None"
proof -
  from reach_past_loop [OF assms, of sched] obtain r0
    where p0: "past_loop (run cfg clients (sched @ r0))" by blast
  let ?s0 = "run cfg clients (sched @ r0)"
  from finish_all [of "length (workers ?s0)" ?s0 cfg clients] obtain r1 where
    a: "\<forall>k < length (workers ?s0).
          wpc (workers (foldl (step cfg clients) ?s0 r1) ! k) = W_Exited" and
    b: "mpc (foldl (step cfg clients) ?s0 r1) = mpc ?s0" and
    c: "length (workers (foldl (step cfg clients) ?s0 r1)) = length (workers ?s0)"
    by auto
  let ?s1 = "run cfg clients ((sched @ r0) @ r1)"
  have s1: "?s1 = foldl (step cfg clients) ?s0 r1" by (rule run_append)
  from p0 b have p1: "past_loop ?s1" unfolding s1 by (simp add: past_loop_def)
  from a c have "\<forall>w \<in> set (workers ?s1). \<not> live w"
    unfolding s1 by (auto simp: in_set_conv_nth live_def)
  then have "cnt live (workers ?s1) = 0" by (simp add: cnt_def)
  with inv_B_run [of cfg clients "(sched @ r0) @ r1"] have z: "wg ?s1 = 0"
    by (simp add: inv_B_def)
  from main4 [OF p1 z, of cfg clients False False False False]
  have "mpc (run cfg clients (((sched @ r0) @ r1) @
          [MainStep False, MainStep False, MainStep False, MainStep False])) = M_Returned None"
    unfolding run_append [of cfg clients "(sched @ r0) @ r1"] by simp
  then show ?thesis
    by (intro exI [of _ "r0 @ r1 @ [MainStep False, MainStep False, MainStep False, MainStep False]"])
      simp
qed

section \<open>The claims\<close>

text \<open>
  C1. The dispatcher is to wait for every launched worker before the summary is logged,
  however the loop ends. On the path of line 132 the code does not: the \<open>return\<close> in the
  \<open>ctx.Done()\<close> case skips \<open>wg.Wait()\<close> (line 145), and the deferred function of lines
  121-125 still logs the summary. In the run \<open>sched_cancel_in_flight\<close> the summary
  "0 out of 1" is logged
  while the WaitGroup counter is 1 and worker 0 has not yet sent its request; the
  request then fails and \<open>failedCount\<close> becomes 1, after the summary. (On the path of the
  loop condition the wait is there: lemma \<open>duration_exit_waits\<close>.)
\<close>

theorem C1_summary_while_worker_outstanding:
  "mpc (run example_config [7] sched_cancel_in_flight) = M_OnceDo ByCancel \<and>
   summary (run example_config [7] sched_cancel_in_flight) =
     Some \<lparr>s_failed = 0, s_total = 1, s_rate = Fin 0\<rparr> \<and>
   wg (run example_config [7] sched_cancel_in_flight) = 1 \<and>
   wpc (workers (run example_config [7] sched_cancel_in_flight) ! 0) = W_Stream \<and>
   failedCount (run example_config [7]
     (sched_cancel_in_flight @
        [WorkerStep 0 error_response, WorkerStep 0 error_response, WorkerStep 0 error_response])) = 1"
  by (simp add: cancel_in_flight_state cancel_in_flight_after)

text \<open>
  C2, as stated, fails: with a duration of 100 ms, a tick interval of one second and no
  signal, the loop condition of line 128 holds when it is first read, the select then
  waits for the first tick, and that tick launches a worker one second after the start.
  The summary reports 0 out of 1.
\<close>

theorem C2_counterexample:
  "duration short_config < interval short_config \<and>
   SignalArrive \<notin> set sched_short_run \<and>
   cancel_calls (run short_config [7] sched_short_run) = 0 \<and>
   length (workers (run short_config [7] sched_short_run)) = 1 \<and>
   summary (run short_config [7] sched_short_run) =
     Some \<lparr>s_failed = 0, s_total = 1, s_rate = Fin 0\<rparr>"
  by (simp add: short_config_vals short_run_workers short_run_summary short_run_cancel)
    (simp add: sched_short_run_def)

text \<open>
  C2, amended. If the total duration is shorter than one tick interval, every run
  launches at most one worker and a summary reports a total of at most 1 (and a failed
  count of at most the total). If the total duration is not positive, every run launches
  no worker and a summary reports 0 out of 0.
\<close>

theorem C2_short_duration:
  "(duration cfg < interval cfg \<longrightarrow>
      length (workers (run cfg clients sched)) \<le> 1 \<and>
      (\<forall>x. summary (run cfg clients sched) = Some x \<longrightarrow>
         s_total x \<le> 1 \<and> s_failed x \<le> s_total x)) \<and>
   (duration cfg \<le> 0 \<longrightarrow>
      workers (run cfg clients sched) = [] \<and>
      (\<forall>x. summary (run cfg clients sched) = Some x \<longrightarrow> s_total x = 0 \<and> s_failed x = 0))"
proof (intro conjI impI allI)
  assume "duration cfg < interval cfg"
  then show "length (workers (run cfg clients sched)) \<le> 1" by (rule few_workers)
next
  fix x
  assume d: "duration cfg < interval cfg" and x: "summary (run cfg clients sched) = Some x"
  from summary_total_le [OF x] few_workers [OF d, of clients sched]
  show "s_total x \<le> 1" by (simp add: word_le_nat_alt)
next
  fix x
  assume x: "summary (run cfg clients sched) = Some x"
  from summary_total_le [OF x] show "s_failed x \<le> s_total x" by (simp add: word_le_nat_alt)
next
  assume "duration cfg \<le> 0"
  then show "workers (run cfg clients sched) = []" by (rule no_workers_nonpos)
next
  fix x
  assume d: "duration cfg \<le> 0" and x: "summary (run cfg clients sched) = Some x"
  from summary_total_le [OF x] no_workers_nonpos [OF d, of clients sched]
  show "s_total x = 0" by (simp add: unat_eq_0)
next
  fix x
  assume d: "duration cfg \<le> 0" and x: "summary (run cfg clients sched) = Some x"
  from summary_total_le [OF x] no_workers_nonpos [OF d, of clients sched]
  show "s_failed x = 0" by (auto simp: unat_eq_0)
qed

theorem C2_short_duration_witness:
  "duration short_config < interval short_config \<and>
   length (workers (run short_config [7] sched_short_run)) \<le> 1 \<and>
   summary (run short_config [7] sched_short_run) =
     Some \<lparr>s_failed = 0, s_total = 1, s_rate = Fin 0\<rparr> \<and>
   duration zero_duration_config \<le> 0 \<and>
   workers (run zero_duration_config [7] sched_no_tick) = [] \<and>
   summary (run zero_duration_config [7] sched_no_tick) =
     Some \<lparr>s_failed = 0, s_total = 0, s_rate = NaN\<rparr>"
proof -
  have a: "duration short_config < interval short_config"
    by (simp add: short_config_vals)
  have b: "duration zero_duration_config \<le> 0"
    by (simp add: zero_duration_vals)
  from C2_short_duration [of short_config "[7]" sched_short_run] a
  have c: "length (workers (run short_config [7] sched_short_run)) \<le> 1" by blast
  from C2_short_duration [of zero_duration_config "[7]" sched_no_tick] b
  have d: "workers (run zero_duration_config [7] sched_no_tick) = []" by blast
  from a b c d short_run_summary no_tick_summary show ?thesis by blast
qed




text \<open>
  C4. Whenever a run logs a summary whose total count is zero, its failed count is zero
  and the failure rate it reports is NaN: the division does not crash and the rate is
  not shown as 0.
\<close>

theorem C4_zero_total_rate:
  "summary (run cfg clients sched) = Some x \<Longrightarrow> s_total x = 0 \<Longrightarrow>
     s_failed x = 0 \<and> s_rate x = NaN"
proof -
  assume x: "summary (run cfg clients sched) = Some x" and z: "s_total x = 0"
  from inv_B_run [of cfg clients sched] x
  have le: "unat (s_failed x) \<le> unat (s_total x)"
    and rate: "s_rate x = failure_rate (s_failed x) (s_total x)"
    by (simp_all add: inv_B_def)
  from le z have f: "s_failed x = 0" by (simp add: unat_eq_0)
  with rate z show "s_failed x = 0 \<and> s_rate x = NaN" by (simp add: failure_rate_zero)
qed

theorem C4_zero_total_rate_witness:
  "summary (run zero_duration_config [7] sched_no_tick) =
     Some \<lparr>s_failed = 0, s_total = 0, s_rate = NaN\<rparr> \<and>
   s_total \<lparr>s_failed = 0, s_total = 0, s_rate = NaN\<rparr> = 0 \<and>
   s_rate \<lparr>s_failed = 0, s_total = 0, s_rate = NaN\<rparr> = NaN"
  using C4_zero_total_rate [OF no_tick_summary] by (simp add: no_tick_summary)

text \<open>
  C5, as stated, fails: not every error outcome is counted. \<open>Stream\<close> hands the body back
  with no error, a read of the body then fails inside \<open>io.Copy\<close>, and line 163 drops that
  error: the worker returns nil and the failed counter stays 0.
\<close>

theorem C5_counterexample:
  "rc (wresp (workers (run csv_config [7] sched_truncated) ! 0)) =
     Some (Body (Some ''unexpected EOF'')) \<and>
   wpc (workers (run csv_config [7] sched_truncated) ! 0) = W_Exited \<and>
   A_Drain (Some ''unexpected EOF'')
     \<in> set (wlog (workers (run csv_config [7] sched_truncated) ! 0)) \<and>
   A_Return None \<in> set (wlog (workers (run csv_config [7] sched_truncated) ! 0)) \<and>
   totalCount (run csv_config [7] sched_truncated) = 1 \<and>
   failedCount (run csv_config [7] sched_truncated) = 0"
  by (simp add: truncated_run_workers truncated_run_state)

text \<open>
  C5, amended. In every run, \<open>totalCount\<close> and \<open>failedCount\<close> are the numbers of increments
  the workers have made, and every worker (every invocation of \<open>listOnce\<close>) has incremented
  the total at most once, sent at most one request and incremented the failed counter at
  most once; its increment of the total comes before its request; it increments the
  failed counter only after its request and only when \<open>Stream\<close> returned an error. A worker
  that has returned has incremented the total exactly once, sent exactly one request,
  incremented the failed counter once if \<open>Stream\<close> returned an error and not at all if it
  did not (whatever reading the body gave), and has returned what \<open>Stream\<close> returned as its
  error: there is no retry.
\<close>

theorem C5_worker_counts:
  "unat (totalCount (run cfg clients sched)) =
     (\<Sum>w\<leftarrow>workers (run cfg clients sched). count_list (wlog w) A_TotalAdd) \<and>
   unat (failedCount (run cfg clients sched)) =
     (\<Sum>w\<leftarrow>workers (run cfg clients sched). count_list (wlog w) A_FailedAdd) \<and>
   (\<forall>w \<in> set (workers (run cfg clients sched)).
      count_list (wlog w) A_TotalAdd \<le> 1 \<and>
      count_list (wlog w) A_Stream \<le> 1 \<and>
      count_list (wlog w) A_FailedAdd \<le> 1 \<and>
      (A_Stream \<in> set (wlog w) \<longrightarrow> before A_TotalAdd A_Stream (wlog w)) \<and>
      (A_FailedAdd \<in> set (wlog w) \<longrightarrow>
         before A_Stream A_FailedAdd (wlog w) \<and> err (wresp w) \<noteq> None) \<and>
      (wpc w = W_Exited \<longrightarrow>
         count_list (wlog w) A_TotalAdd = 1 \<and>
         count_list (wlog w) A_Stream = 1 \<and>
         count_list (wlog w) A_FailedAdd = (if err (wresp w) = None then 0 else 1) \<and>
         A_Return (err (wresp w)) \<in> set (wlog w)))"
proof (intro conjI ballI)
  let ?s = "run cfg clients sched"
  let ?c = "csvWriter_set cfg"
  have wi: "winv ?c w" if "w \<in> set (workers ?s)" for w
    using inv_W_run [of cfg clients sched] that by (simp add: inv_W_def)
  from inv_B_run [of cfg clients sched]
  have t: "unat (totalCount ?s) = cnt past_total (workers ?s)"
    and f: "unat (failedCount ?s) = cnt did_fail (workers ?s)"
    by (simp_all add: inv_B_def)
  have "(\<Sum>w\<leftarrow>workers ?s. count_list (wlog w) A_TotalAdd) = cnt past_total (workers ?s)"
    by (rule sum_list_cnt) (rule winv_counts(1) [OF wi])
  with t show "unat (totalCount ?s) = (\<Sum>w\<leftarrow>workers ?s. count_list (wlog w) A_TotalAdd)"
    by simp
  have "(\<Sum>w\<leftarrow>workers ?s. count_list (wlog w) A_FailedAdd) = cnt did_fail (workers ?s)"
    by (rule sum_list_cnt) (rule winv_counts(2) [OF wi])
  with f show "unat (failedCount ?s) = (\<Sum>w\<leftarrow>workers ?s. count_list (wlog w) A_FailedAdd)"
    by simp
  fix w
  assume w: "w \<in> set (workers ?s)"
  note c = winv_counts [OF wi [OF w]]
  show "count_list (wlog w) A_TotalAdd \<le> 1" using c(1) by simp
  show "count_list (wlog w) A_Stream \<le> 1" by (rule c(3))
  show "count_list (wlog w) A_FailedAdd \<le> 1" using c(2) by simp
  show "A_Stream \<in> set (wlog w) \<longrightarrow> before A_TotalAdd A_Stream (wlog w)" by (rule c(4))
  show "A_FailedAdd \<in> set (wlog w) \<longrightarrow>
         before A_Stream A_FailedAdd (wlog w) \<and> err (wresp w) \<noteq> None" by (rule c(5))
  show "wpc w = W_Exited \<longrightarrow>
         count_list (wlog w) A_TotalAdd = 1 \<and>
         count_list (wlog w) A_Stream = 1 \<and>
         count_list (wlog w) A_FailedAdd = (if err (wresp w) = None then 0 else 1) \<and>
         A_Return (err (wresp w)) \<in> set (wlog w)"
    using c(1,2,6) by (auto simp: past_total_def did_fail_def)
qed

theorem C5_worker_counts_witness:
  "workers (run example_config [7] sched_one_failure) ! 0
     \<in> set (workers (run example_config [7] sched_one_failure)) \<and>
   wpc (workers (run example_config [7] sched_one_failure) ! 0) = W_Exited \<and>
   err (wresp (workers (run example_config [7] sched_one_failure) ! 0)) = Some ''timeout'' \<and>
   wlog (workers (run example_config [7] sched_one_failure) ! 0) =
     [A_TotalAdd, A_Now 1000000000, A_Stream, A_FailedAdd, A_Return (Some ''timeout''), A_WgDone] \<and>
   count_list (wlog (workers (run example_config [7] sched_one_failure) ! 0)) A_FailedAdd = 1 \<and>
   before A_TotalAdd A_Stream (wlog (workers (run example_config [7] sched_one_failure) ! 0)) \<and>
   unat (totalCount (run example_config [7] sched_one_failure)) = 1 \<and>
   unat (failedCount (run example_config [7] sched_one_failure)) = 1 \<and>
   wpc (workers (run csv_config [7] sched_truncated) ! 0) = W_Exited \<and>
   err (wresp (workers (run csv_config [7] sched_truncated) ! 0)) = None \<and>
   count_list (wlog (workers (run csv_config [7] sched_truncated) ! 0)) A_FailedAdd = 0"
proof -
  let ?s = "run example_config [7] sched_one_failure"
  let ?u = "run csv_config [7] sched_truncated"
  have mu: "workers ?u ! 0 \<in> set (workers ?u)" by (simp add: truncated_run_workers)
  have xu: "wpc (workers ?u ! 0) = W_Exited" "err (wresp (workers ?u ! 0)) = None"
    by (simp_all add: truncated_run_workers)
  from C5_worker_counts [of csv_config "[7]" sched_truncated] mu xu
  have cu: "count_list (wlog (workers ?u ! 0)) A_FailedAdd = 0" by auto
  have m: "workers ?s ! 0 \<in> set (workers ?s)" by (simp add: one_failure_workers)
  have x: "wpc (workers ?s ! 0) = W_Exited" "A_Stream \<in> set (wlog (workers ?s ! 0))"
    "err (wresp (workers ?s ! 0)) = Some ''timeout''"
    by (simp_all add: one_failure_workers)
  have l: "wlog (workers ?s ! 0) =
     [A_TotalAdd, A_Now 1000000000, A_Stream, A_FailedAdd, A_Return (Some ''timeout''), A_WgDone]"
    by (simp add: one_failure_workers)
  note t = C5_worker_counts [of example_config "[7]" sched_one_failure]
  from t m x have "count_list (wlog (workers ?s ! 0)) A_FailedAdd = 1"
    and "before A_TotalAdd A_Stream (wlog (workers ?s ! 0))"
    by auto
  moreover have "unat (totalCount ?s) = 1" "unat (failedCount ?s) = 1"
    by (simp_all add: one_failure_counts)
  ultimately show ?thesis using m x l xu cu by blast
qed

text \<open>
  C6. In every run the cancel function has been executed at most once, whatever signals
  arrive and whatever else calls \<open>once.Do(cancel)\<close> (the deferred call of line 89), and the
  context is done exactly when it has been executed. Once the context is done the
  signal goroutine's loop ends: however the run goes on, as soon as that goroutine has
  had more turns than there are signals left for it to receive (the pending one and those
  that still arrive), it has returned.
\<close>

theorem C6_cancel_once:
  "cancel_calls (run cfg clients sched) \<le> 1 \<and>
   (ctx_done (run cfg clients sched) \<longleftrightarrow> cancel_calls (run cfg clients sched) = 1) \<and>
   (ctx_done (run cfg clients sched) \<and>
    count_list rest SignalArrive + (if sig_pending (run cfg clients sched) then 1 else 0)
      < handler_turns rest \<longrightarrow>
    handler (run cfg clients (sched @ rest)) = H_Exited)"
proof (intro conjI impI)
  note H = inv_H_run [of cfg clients sched]
  from H show "cancel_calls (run cfg clients sched) \<le> 1" by (simp add: inv_H_def)
  from H show "ctx_done (run cfg clients sched) \<longleftrightarrow> cancel_calls (run cfg clients sched) = 1"
    by (simp add: inv_H_def)
  assume a: "ctx_done (run cfg clients sched) \<and>
    count_list rest SignalArrive + (if sig_pending (run cfg clients sched) then 1 else 0)
      < handler_turns rest"
  with H have "cancelled (run cfg clients sched)" by (auto simp: inv_H_def cancelled_def)
  from handler_exits [OF this, of rest cfg clients] a
  show "handler (run cfg clients (sched @ rest)) = H_Exited" by (simp add: run_def)
qed

theorem C6_cancel_once_witness:
  "ctx_done (run example_config [7] sched_signals) \<and>
   sig_pending (run example_config [7] sched_signals) \<and>
   handler (run example_config [7] sched_signals) = H_Running \<and>
   count_list [HandlerStep False, HandlerStep False] SignalArrive + 1
     < handler_turns [HandlerStep False, HandlerStep False] \<and>
   handler (run example_config [7] (sched_signals @ [HandlerStep False, HandlerStep False]))
     = H_Exited \<and>
   cancel_calls (run example_config [7] (sched_signals @ [HandlerStep False, HandlerStep False]))
     = 1"
proof -
  have t: "count_list [HandlerStep False, HandlerStep False] SignalArrive + 1
     < handler_turns [HandlerStep False, HandlerStep False]"
    by (simp add: handler_turns_def)
  from C6_cancel_once [of example_config "[7]" sched_signals
      "[HandlerStep False, HandlerStep False]"] signals_state(1,2) t
  have "handler (run example_config [7] (sched_signals @ [HandlerStep False, HandlerStep False]))
     = H_Exited" by simp
  with signals_state signals_after t show ?thesis by (intro conjI)
qed

text \<open>
  C7, as stated, fails: a body is not always fully drained, and a latency is recorded
  without the payload having been consumed. In the run \<open>sched_truncated\<close> a read of the
  body fails inside \<open>io.Copy\<close>, which stops there; the error is dropped (line 163), the
  body is closed, and the worker records 250 ms as the latency of a successful request.
\<close>

theorem C7_counterexample:
  "rc (wresp (workers (run csv_config [7] sched_truncated) ! 0)) =
     Some (Body (Some ''unexpected EOF'')) \<and>
   err (wresp (workers (run csv_config [7] sched_truncated) ! 0)) = None \<and>
   wlog (workers (run csv_config [7] sched_truncated) ! 0) =
     [A_TotalAdd, A_Now 1000000000, A_Stream, A_Drain (Some ''unexpected EOF''), A_Close,
      A_Since 1250000000 250000000, A_CsvWrite 250000000, A_Return None, A_WgDone] \<and>
   csv (run csv_config [7] sched_truncated) = [250000000]"
  by (simp add: truncated_run_workers truncated_run_state)

text \<open>
  C7, amended. In every run, a worker whose \<open>listOnce\<close> has returned and whose request gave
  a response body has passed it to \<open>io.Copy\<close> once and closed it once, after the request,
  the drain before the close and the close before the return, whether \<open>Stream\<close> returned an
  error or not; what the drain gives (nil at the end of the body, or the error of the read
  that failed) is dropped, and the worker returns what \<open>Stream\<close> returned. With no body the worker has drained and closed nothing. If
  \<open>Stream\<close> returned no error, the worker read the clock immediately before the request (its
  log starts with the increment, the clock reading, the request), it computed the latency
  after the request and, with a body, after the drain and the close, as \<open>time.Since\<close> of the
  first reading at a later reading, and it wrote that latency to the CSV sink, between
  computing it and returning, exactly when a sink is configured. If \<open>Stream\<close> returned an
  error, the worker computed and wrote no latency. The sink holds one row for each worker
  that has written, every row is the latency of a worker that returned without error, and
  the sink is empty when none is configured.
\<close>

theorem C7_drain_close_latency:
  "(\<not> csvWriter_set cfg \<longrightarrow> csv (run cfg clients sched) = []) \<and>
   length (csv (run cfg clients sched)) =
     length (filter (wrote (csvWriter_set cfg)) (workers (run cfg clients sched))) \<and>
   (\<forall>l \<in> set (csv (run cfg clients sched)).
      \<exists>w \<in> set (workers (run cfg clients sched)).
        wrote (csvWriter_set cfg) w \<and> wlatency w = l) \<and>
   (\<forall>w \<in> set (workers (run cfg clients sched)).
      wpc w = W_WgDone \<or> wpc w = W_Exited \<longrightarrow>
      (\<forall>body. rc (wresp w) = Some body \<longrightarrow>
         count_list (wlog w) (A_Drain (read_error body)) = 1 \<and>
         count_list (wlog w) A_Close = 1 \<and>
         before A_Stream (A_Drain (read_error body)) (wlog w) \<and>
         before (A_Drain (read_error body)) A_Close (wlog w) \<and>
         before A_Close (A_Return (err (wresp w))) (wlog w)) \<and>
      (rc (wresp w) = None \<longrightarrow> (\<forall>x. A_Drain x \<notin> set (wlog w)) \<and> A_Close \<notin> set (wlog w)) \<and>
      (err (wresp w) = None \<longrightarrow>
         (\<exists>t1. take 3 (wlog w) = [A_TotalAdd, A_Now (wstart w), A_Stream] \<and>
               before A_Stream (A_Since t1 (wlatency w)) (wlog w) \<and>
               (rc (wresp w) \<noteq> None \<longrightarrow> before A_Close (A_Since t1 (wlatency w)) (wlog w)) \<and>
               wlatency w = time_Since (wstart w) t1 \<and>
               (csvWriter_set cfg \<longrightarrow>
                  before (A_Since t1 (wlatency w)) (A_CsvWrite (wlatency w)) (wlog w) \<and>
                  before (A_CsvWrite (wlatency w)) (A_Return None) (wlog w)) \<and>
               (\<not> csvWriter_set cfg \<longrightarrow> (\<forall>l. A_CsvWrite l \<notin> set (wlog w))))) \<and>
      (err (wresp w) \<noteq> None \<longrightarrow>
         (\<forall>l. A_CsvWrite l \<notin> set (wlog w)) \<and> (\<forall>t l. A_Since t l \<notin> set (wlog w))))"
proof (intro conjI)
  let ?s = "run cfg clients sched"
  let ?c = "csvWriter_set cfg"
  note S = inv_S_run [of cfg clients sched]
  show "\<not> ?c \<longrightarrow> csv ?s = []" using S by (simp add: inv_S_def)
  show "length (csv ?s) = length (filter (wrote ?c) (workers ?s))"
    using S by (simp add: inv_S_def cnt_def)
  show "\<forall>l \<in> set (csv ?s). \<exists>w \<in> set (workers ?s). wrote ?c w \<and> wlatency w = l"
    using S by (simp add: inv_S_def)
  show "\<forall>w \<in> set (workers ?s).
      wpc w = W_WgDone \<or> wpc w = W_Exited \<longrightarrow>
      (\<forall>body. rc (wresp w) = Some body \<longrightarrow>
         count_list (wlog w) (A_Drain (read_error body)) = 1 \<and>
         count_list (wlog w) A_Close = 1 \<and>
         before A_Stream (A_Drain (read_error body)) (wlog w) \<and>
         before (A_Drain (read_error body)) A_Close (wlog w) \<and>
         before A_Close (A_Return (err (wresp w))) (wlog w)) \<and>
      (rc (wresp w) = None \<longrightarrow> (\<forall>x. A_Drain x \<notin> set (wlog w)) \<and> A_Close \<notin> set (wlog w)) \<and>
      (err (wresp w) = None \<longrightarrow>
         (\<exists>t1. take 3 (wlog w) = [A_TotalAdd, A_Now (wstart w), A_Stream] \<and>
               before A_Stream (A_Since t1 (wlatency w)) (wlog w) \<and>
               (rc (wresp w) \<noteq> None \<longrightarrow> before A_Close (A_Since t1 (wlatency w)) (wlog w)) \<and>
               wlatency w = time_Since (wstart w) t1 \<and>
               (csvWriter_set cfg \<longrightarrow>
                  before (A_Since t1 (wlatency w)) (A_CsvWrite (wlatency w)) (wlog w) \<and>
                  before (A_CsvWrite (wlatency w)) (A_Return None) (wlog w)) \<and>
               (\<not> csvWriter_set cfg \<longrightarrow> (\<forall>l. A_CsvWrite l \<notin> set (wlog w))))) \<and>
      (err (wresp w) \<noteq> None \<longrightarrow>
         (\<forall>l. A_CsvWrite l \<notin> set (wlog w)) \<and> (\<forall>t l. A_Since t l \<notin> set (wlog w)))"
  proof (rule ballI, rule impI)
    fix w
    assume w: "w \<in> set (workers ?s)" and r: "wpc w = W_WgDone \<or> wpc w = W_Exited"
    from inv_W_run [of cfg clients sched] w have "winv (csvWriter_set cfg) w"
      by (simp add: inv_W_def)
    note f = winv_returned [OF this r]
    show "(\<forall>body. rc (wresp w) = Some body \<longrightarrow>
         count_list (wlog w) (A_Drain (read_error body)) = 1 \<and>
         count_list (wlog w) A_Close = 1 \<and>
         before A_Stream (A_Drain (read_error body)) (wlog w) \<and>
         before (A_Drain (read_error body)) A_Close (wlog w) \<and>
         before A_Close (A_Return (err (wresp w))) (wlog w)) \<and>
      (rc (wresp w) = None \<longrightarrow> (\<forall>x. A_Drain x \<notin> set (wlog w)) \<and> A_Close \<notin> set (wlog w)) \<and>
      (err (wresp w) = None \<longrightarrow>
         (\<exists>t1. take 3 (wlog w) = [A_TotalAdd, A_Now (wstart w), A_Stream] \<and>
               before A_Stream (A_Since t1 (wlatency w)) (wlog w) \<and>
               (rc (wresp w) \<noteq> None \<longrightarrow> before A_Close (A_Since t1 (wlatency w)) (wlog w)) \<and>
               wlatency w = time_Since (wstart w) t1 \<and>
               (csvWriter_set cfg \<longrightarrow>
                  before (A_Since t1 (wlatency w)) (A_CsvWrite (wlatency w)) (wlog w) \<and>
                  before (A_CsvWrite (wlatency w)) (A_Return None) (wlog w)) \<and>
               (\<not> csvWriter_set cfg \<longrightarrow> (\<forall>l. A_CsvWrite l \<notin> set (wlog w))))) \<and>
      (err (wresp w) \<noteq> None \<longrightarrow>
         (\<forall>l. A_CsvWrite l \<notin> set (wlog w)) \<and> (\<forall>t l. A_Since t l \<notin> set (wlog w)))"
      by (intro conjI f)
  qed
qed

theorem C7_drain_close_latency_witness:
  "csvWriter_set csv_config \<and>
   workers (run csv_config [7] sched_csv) ! 0 \<in> set (workers (run csv_config [7] sched_csv)) \<and>
   wpc (workers (run csv_config [7] sched_csv) ! 0) = W_Exited \<and>
   rc (wresp (workers (run csv_config [7] sched_csv) ! 0)) = Some (Body None) \<and>
   err (wresp (workers (run csv_config [7] sched_csv) ! 0)) = None \<and>
   wlog (workers (run csv_config [7] sched_csv) ! 0) =
     [A_TotalAdd, A_Now 1000000000, A_Stream, A_Drain None, A_Close,
      A_Since 1250000000 250000000, A_CsvWrite 250000000, A_Return None, A_WgDone] \<and>
   before (A_Drain None) A_Close (wlog (workers (run csv_config [7] sched_csv) ! 0)) \<and>
   before A_Close (A_Return None) (wlog (workers (run csv_config [7] sched_csv) ! 0)) \<and>
   wlatency (workers (run csv_config [7] sched_csv) ! 0) = time_Since 1000000000 1250000000 \<and>
   csv (run csv_config [7] sched_csv) = [250000000] \<and>
   rc (wresp (workers (run csv_config [7] sched_truncated) ! 0)) =
     Some (Body (Some ''unexpected EOF'')) \<and>
   before (A_Drain (Some ''unexpected EOF'')) A_Close
     (wlog (workers (run csv_config [7] sched_truncated) ! 0))"
proof -
  let ?u = "run csv_config [7] sched_truncated"
  have mu: "workers ?u ! 0 \<in> set (workers ?u)" by (simp add: truncated_run_workers)
  have xu: "wpc (workers ?u ! 0) = W_Exited"
    "rc (wresp (workers ?u ! 0)) = Some (Body (Some ''unexpected EOF''))"
    by (simp_all add: truncated_run_workers)
  note u0 = C7_drain_close_latency [of csv_config "[7]" sched_truncated,
      THEN conjunct2, THEN conjunct2, THEN conjunct2, THEN bspec, OF mu,
      THEN mp, OF disjI2 [OF xu(1)]]
  note du = u0 [THEN conjunct1, THEN spec, THEN mp, OF xu(2)]
  have "before (A_Drain (read_error (Body (Some ''unexpected EOF'')))) A_Close
      (wlog (workers ?u ! 0))"
    by (rule du [THEN conjunct2, THEN conjunct2, THEN conjunct2, THEN conjunct1])
  then have bu: "before (A_Drain (Some ''unexpected EOF'')) A_Close (wlog (workers ?u ! 0))"
    by simp
  let ?s = "run csv_config [7] sched_csv"
  have c: "csvWriter_set csv_config" by (simp add: csv_config_def csvWriter_set_def)
  have m: "workers ?s ! 0 \<in> set (workers ?s)" by (simp add: csv_run_workers)
  have x: "wpc (workers ?s ! 0) = W_Exited" "rc (wresp (workers ?s ! 0)) = Some (Body None)"
    "err (wresp (workers ?s ! 0)) = None"
    by (simp_all add: csv_run_workers)
  have l: "wlog (workers ?s ! 0) =
     [A_TotalAdd, A_Now 1000000000, A_Stream, A_Drain None, A_Close,
      A_Since 1250000000 250000000, A_CsvWrite 250000000, A_Return None, A_WgDone]"
    by (simp add: csv_run_workers)
  have t: "wlatency (workers ?s ! 0) = time_Since 1000000000 1250000000"
    by (simp add: csv_run_workers time_Since_def maxInt64_def)
  note th = C7_drain_close_latency [of csv_config "[7]" sched_csv]
  note w0 = th [THEN conjunct2, THEN conjunct2, THEN conjunct2, THEN bspec, OF m,
      THEN mp, OF disjI2 [OF x(1)]]
  note d = w0 [THEN conjunct1, THEN spec, THEN mp, OF x(2)]
  have "before (A_Drain (read_error (Body None))) A_Close (wlog (workers ?s ! 0))"
    by (rule d [THEN conjunct2, THEN conjunct2, THEN conjunct2, THEN conjunct1])
  then have b1: "before (A_Drain None) A_Close (wlog (workers ?s ! 0))" by simp
  have "before A_Close (A_Return (err (wresp (workers ?s ! 0)))) (wlog (workers ?s ! 0))"
    by (rule d [THEN conjunct2, THEN conjunct2, THEN conjunct2, THEN conjunct2])
  then have b2: "before A_Close (A_Return None) (wlog (workers ?s ! 0))"
    unfolding x(3) .
  from c m x l t csv_run_rows b1 b2 xu(2) bu show ?thesis by (intro conjI)
qed

text \<open>
  C8. In every run, the worker launched at tick index \<open>k\<close> (the value of the loop counter,
  which is also its position in launch order) holds the client handle at position
  \<open>k mod length clients\<close> of the pool. With a pool of length 1 every worker holds the same
  handle, and the run is a valid one: with a positive tick interval the dispatcher never
  panics.
\<close>

theorem C8_round_robin:
  "(\<forall>k < length (workers (run cfg clients sched)).
      wtick (workers (run cfg clients sched) ! k) = int k \<and>
      wclient (workers (run cfg clients sched) ! k) = clients ! (k mod length clients)) \<and>
   (length clients = 1 \<longrightarrow>
      (\<forall>w \<in> set (workers (run cfg clients sched)). wclient w = clients ! 0) \<and>
      (0 < interval cfg \<longrightarrow> \<not> panicking (run cfg clients sched)))"
proof (intro conjI impI ballI)
  show "\<forall>k < length (workers (run cfg clients sched)).
      wtick (workers (run cfg clients sched) ! k) = int k \<and>
      wclient (workers (run cfg clients sched) ! k) = clients ! (k mod length clients)"
    using inv_C_run [of clients cfg sched] by (simp add: inv_C_def)
next
  fix w
  assume one: "length clients = 1" and "w \<in> set (workers (run cfg clients sched))"
  then obtain k where k: "k < length (workers (run cfg clients sched))"
    and w: "w = workers (run cfg clients sched) ! k"
    by (auto simp: in_set_conv_nth)
  from inv_C_run [of clients cfg sched] k
  have "wclient (workers (run cfg clients sched) ! k) = clients ! (k mod length clients)"
    by (simp add: inv_C_def)
  with one w show "wclient w = clients ! 0" by simp
next
  assume "length clients = 1" and "0 < interval cfg"
  then have "0 < interval cfg \<and> clients \<noteq> []" by auto
  with inv_N_run [of cfg clients sched] show "\<not> panicking (run cfg clients sched)"
    by (simp add: inv_N_def)
qed

theorem C8_round_robin_witness:
  "length [7::client] = 1 \<and> 0 < interval example_config \<and>
   length (workers (run example_config [7] sched_two_ticks)) = 2 \<and>
   wtick (workers (run example_config [7] sched_two_ticks) ! 1) = 1 \<and>
   wclient (workers (run example_config [7] sched_two_ticks) ! 0) = 7 \<and>
   wclient (workers (run example_config [7] sched_two_ticks) ! 1) = 7 \<and>
   \<not> panicking (run example_config [7] sched_two_ticks)"
proof -
  have len: "length (workers (run example_config [7] sched_two_ticks)) = 2"
    by (simp add: two_ticks_workers)
  have pos: "0 < interval example_config"
    by (simp add: example_config_def interval_def)
  from C8_round_robin [of example_config "[7]" sched_two_ticks] len pos
  show ?thesis by (simp add: less_Suc_eq numeral_2_eq_2)
qed

text \<open>
  C9. At every point of every run the failed counter is at most the total counter, and a
  summary, once logged, reports a failed count that is at most its total count. (The
  deferred function loads \<open>failedCount\<close> before \<open>totalCount\<close>, so this holds of the
  summary also when workers are still running between the two loads.)
\<close>

theorem C9_failed_le_total:
  "failedCount (run cfg clients sched) \<le> totalCount (run cfg clients sched) \<and>
   (\<forall>x. summary (run cfg clients sched) = Some x \<longrightarrow> s_failed x \<le> s_total x)"
proof -
  from inv_B_run [of cfg clients sched]
  have "unat (failedCount (run cfg clients sched)) = cnt did_fail (workers (run cfg clients sched))"
    and "unat (totalCount (run cfg clients sched)) = cnt past_total (workers (run cfg clients sched))"
    and "\<forall>x. summary (run cfg clients sched) = Some x \<longrightarrow> unat (s_failed x) \<le> unat (s_total x)"
    by (simp_all add: inv_B_def)
  with cnt_fail_le_total [of "workers (run cfg clients sched)"]
  show ?thesis by (simp add: word_le_nat_alt)
qed

theorem C9_failed_le_total_witness:
  "failedCount (run example_config [7] sched_one_failure) = 1 \<and>
   totalCount (run example_config [7] sched_one_failure) = 1 \<and>
   summary (run example_config [7] sched_one_failure) =
     Some \<lparr>s_failed = 1, s_total = 1, s_rate = Fin 100\<rparr> \<and>
   s_failed \<lparr>s_failed = 1, s_total = 1, s_rate = Fin 100\<rparr>
     \<le> s_total \<lparr>s_failed = 1, s_total = 1, s_rate = Fin 100\<rparr>"
  using C9_failed_le_total [of example_config "[7]" sched_one_failure]
  by (simp add: one_failure_summary one_failure_counts)

text \<open>
  C10. \<open>listCommand\<close> has one return statement, \<open>return nil\<close> (line 111): in no run does it
  return an error that is not nil, so the error branch of \<open>Run\<close> (lines 65-68), which logs
  the error and exits with status 1, is never taken.
\<close>

theorem C10_never_returns_error:
  "(\<forall>e. mpc (run cfg clients sched) \<noteq> M_Returned (Some e)) \<and>
   Run_exit (run cfg clients sched) = None"
proof (intro conjI)
  from inv_R_run [of clients cfg sched]
  show r: "\<forall>e. mpc (run cfg clients sched) \<noteq> M_Returned (Some e)" by (simp add: inv_R_def)
  then show "Run_exit (run cfg clients sched) = None"
    by (auto simp: Run_exit_def split: mpc.split option.split)
qed

theorem C10_never_returns_error_witness:
  "mpc (run short_config [7] (sched_short_run @ [MainStep False])) = M_Returned None \<and>
   Run_exit (run short_config [7] (sched_short_run @ [MainStep False])) = None"
proof -
  from C10_never_returns_error [of short_config "[7]" "sched_short_run @ [MainStep False]"]
  have "Run_exit (run short_config [7] (sched_short_run @ [MainStep False])) = None" by blast
  with short_run_returns show ?thesis by blast
qed

end
